theory Spec2Isabelle
  imports Main
begin

section \<open>The bounded wait queue (threading.h, class WaitQueue)\<close>

text \<open>
  The object: the capacity \<open>_queueMaxSize\<close> (a \<open>size_t\<close>, here a natural number below
  \<open>2 ^ 64\<close>), the FIFO \<open>_queue\<close> (front of the queue = head of the list) and the
  flag \<open>_endWait\<close>.
\<close>

record 'a WaitQueue =
  queueMaxSize :: nat
  queue :: "'a list"
  endWaitFlag :: bool

text \<open>What a call does to the condition variable \<open>_queueNotify\<close>.\<close>

datatype notify = NoNotify | NotifyOne | NotifyAll

text \<open>
  A call either returns or parks its thread in \<open>_queueNotify.wait\<close>. A parked thread
  holds no lock and has changed nothing.
\<close>

datatype 'r call = Waiting | Returned 'r

text \<open>The constructor: \<open>WaitQueue(size_t queueMaxSize)\<close>.\<close>

definition WaitQueue_new :: "nat \<Rightarrow> 'a WaitQueue" where
  "WaitQueue_new n = \<lparr>queueMaxSize = n, queue = [], endWaitFlag = False\<rparr>"

text \<open>\<open>full()\<close>: \<open>_queue.size() >= _queueMaxSize\<close>.\<close>

definition full :: "'a WaitQueue \<Rightarrow> bool" where
  "full q = (length (queue q) \<ge> queueMaxSize q)"

text \<open>
  \<open>push\<close>, from its entry to the first \<open>return\<close> or to the \<open>wait\<close>: when the
  queue is not full the value is appended and the consumers are notified according to
  the size found before the insertion; otherwise the thread parks.
\<close>

definition push :: "'a WaitQueue \<Rightarrow> 'a \<Rightarrow> unit call \<times> notify \<times> 'a WaitQueue" where
  "push q v =
     (if \<not> full q then
        (let queueSize = length (queue q);
             q' = q\<lparr>queue := queue q @ [v]\<rparr>
         in (Returned (),
             (if queueSize = 0 then NotifyOne
              else if queueSize = 1 then NotifyAll
              else NoNotify),
             q'))
      else (Waiting, NoNotify, q))"

text \<open>
  \<open>push\<close>, continued by a producer that was parked and is woken: the predicate of the
  \<open>wait\<close> is evaluated again; once the queue is not full the value is appended by
  the last line of \<open>push\<close>, which notifies nobody.
\<close>

definition push_resume :: "'a WaitQueue \<Rightarrow> 'a \<Rightarrow> unit call \<times> notify \<times> 'a WaitQueue" where
  "push_resume q v =
     (if \<not> full q then (Returned (), NoNotify, q\<lparr>queue := queue q @ [v]\<rparr>)
      else (Waiting, NoNotify, q))"

text \<open>
  \<open>tolimit\<close> in \<open>pop\<close>: \<open>_queueMaxSize - _queue.size()\<close> in \<open>size_t\<close> arithmetic,
  which wraps around at \<open>2 ^ 64\<close>.
\<close>

definition tolimit :: "'a WaitQueue \<Rightarrow> nat" where
  "tolimit q = (queueMaxSize q + 2 ^ 64 - length (queue q) mod 2 ^ 64) mod 2 ^ 64"

text \<open>
  \<open>pop\<close>: the thread parks while the queue is empty and \<open>_endWait\<close> is not set; a
  woken consumer evaluates the same predicate again, so this function is also what a
  woken consumer does. The result \<open>None\<close> is the return value \<open>false\<close> (the
  reference argument is left alone), \<open>Some v\<close> is \<open>true\<close> with \<open>v\<close> stored.
\<close>

definition pop :: "'a WaitQueue \<Rightarrow> 'a option call \<times> notify \<times> 'a WaitQueue" where
  "pop q =
     (if queue q = [] \<and> \<not> endWaitFlag q then (Waiting, NoNotify, q)
      else if queue q = [] then (Returned None, NoNotify, q)
      else
        (Returned (Some (hd (queue q))),
         (if tolimit q = 0 then NotifyOne
          else if tolimit q = 1 then NotifyAll
          else NoNotify),
         q\<lparr>queue := tl (queue q)\<rparr>))"

text \<open>\<open>endWait()\<close>: sets the flag and notifies every waiting thread.\<close>

definition endWait :: "'a WaitQueue \<Rightarrow> notify \<times> 'a WaitQueue" where
  "endWait q = (NotifyAll, q\<lparr>endWaitFlag := True\<rparr>)"

subsection \<open>Threads calling into one queue\<close>

text \<open>
  Every call runs under \<open>_mutex\<close> from its entry to its \<open>return\<close> or its \<open>wait\<close>,
  so an execution of several producers and consumers is a sequence of the events below.
  A producer parked inside \<open>push\<close> keeps the value it is about to insert; the system
  state records these values. A parked producer may be woken at any time (by a
  notification or spuriously) and then continues with \<open>push_resume\<close>. A woken
  consumer behaves as a fresh call of \<open>pop\<close>.
\<close>

record 'a system =
  wq :: "'a WaitQueue"
  parked :: "'a list"

datatype 'a event = EvPush 'a | EvResume nat | EvPop | EvEndWait

definition system_new :: "nat \<Rightarrow> 'a system" where
  "system_new n = \<lparr>wq = WaitQueue_new n, parked = []\<rparr>"

fun step :: "'a system \<Rightarrow> 'a event \<Rightarrow> 'a system" where
  "step s (EvPush v) =
     (case push (wq s) v of
        (Waiting, _, q') \<Rightarrow> s\<lparr>wq := q', parked := parked s @ [v]\<rparr>
      | (Returned _, _, q') \<Rightarrow> s\<lparr>wq := q'\<rparr>)"
| "step s (EvResume i) =
     (if i < length (parked s) then
        (case push_resume (wq s) (parked s ! i) of
           (Waiting, _, q') \<Rightarrow> s\<lparr>wq := q'\<rparr>
         | (Returned _, _, q') \<Rightarrow>
             s\<lparr>wq := q', parked := take i (parked s) @ drop (Suc i) (parked s)\<rparr>)
      else s)"
| "step s EvPop = s\<lparr>wq := snd (snd (pop (wq s)))\<rparr>"
| "step s EvEndWait = s\<lparr>wq := snd (endWait (wq s))\<rparr>"

definition run :: "'a system \<Rightarrow> 'a event list \<Rightarrow> 'a system" where
  "run s evs = foldl step s evs"

text \<open>\<open>n\<close> calls of \<open>pop\<close> one after the other, with what each of them returned.\<close>

fun pops :: "nat \<Rightarrow> 'a WaitQueue \<Rightarrow> 'a option call list \<times> 'a WaitQueue" where
  "pops 0 q = ([], q)"
| "pops (Suc n) q =
     (case pop q of (r, _, q') \<Rightarrow> (case pops n q' of (rs, q'') \<Rightarrow> (r # rs, q'')))"

text \<open>The values of a list pushed one after the other by producers that find room.\<close>

fun pushes :: "'a list \<Rightarrow> 'a WaitQueue \<Rightarrow> 'a WaitQueue" where
  "pushes [] q = q"
| "pushes (v # vs) q = pushes vs (snd (snd (push q v)))"

text \<open>The queue holds no more than its capacity.\<close>

definition bounded :: "'a WaitQueue \<Rightarrow> bool" where
  "bounded q = (length (queue q) \<le> queueMaxSize q)"


section \<open>The round-robin cursor (threading.h, class RoundRobin)\<close>

text \<open>
  The container is a \<open>std::deque\<close>, here a list; the iterator \<open>_position\<close> is the index
  it points to, with \<open>end()\<close> the length of the list.
\<close>

record 'a RoundRobin =
  container :: "'a list"
  position :: nat

text \<open>\<open>init()\<close>: \<open>_position = _container.begin()\<close>.\<close>

definition init :: "'a RoundRobin \<Rightarrow> 'a RoundRobin" where
  "init rr = rr\<lparr>position := 0\<rparr>"

text \<open>The constructors: the container is built or moved in, then \<open>init()\<close>.\<close>

definition RoundRobin_new :: "'a list \<Rightarrow> 'a RoundRobin" where
  "RoundRobin_new xs = init \<lparr>container = xs, position = 0\<rparr>"

text \<open>
  What \<open>next\<close> hands back: \<open>false\<close>, or \<open>true\<close> with the value stored through the
  pointer. Incrementing or dereferencing an iterator past the end has no defined
  behaviour; the model gives it a result of its own.
\<close>

datatype 'a next_result = NextFalse | NextTrue 'a | NextUndefined

definition next_rr :: "'a RoundRobin \<Rightarrow> 'a next_result \<times> 'a RoundRobin" where
  "next_rr rr =
     (if container rr = [] then (NextFalse, rr)
      else if position rr \<ge> length (container rr) then (NextUndefined, rr)
      else
        (let p = (if Suc (position rr) = length (container rr) then 0 else Suc (position rr))
         in (NextTrue (container rr ! p), rr\<lparr>position := p\<rparr>)))"

text \<open>\<open>remove\<close>: erase every element equal to the value, then \<open>init()\<close>.\<close>

definition remove :: "'a RoundRobin \<Rightarrow> 'a \<Rightarrow> 'a RoundRobin" where
  "remove rr v = init (rr\<lparr>container := filter (\<lambda>y. y \<noteq> v) (container rr)\<rparr>)"

text \<open>The cursor points into the container whenever the container is not empty.\<close>

definition rr_valid :: "'a RoundRobin \<Rightarrow> bool" where
  "rr_valid rr = (container rr = [] \<or> position rr < length (container rr))"

text \<open>\<open>k\<close> calls of \<open>next\<close> one after the other.\<close>

fun nexts :: "nat \<Rightarrow> 'a RoundRobin \<Rightarrow> 'a next_result list \<times> 'a RoundRobin" where
  "nexts 0 rr = ([], rr)"
| "nexts (Suc k) rr =
     (case next_rr rr of (r, rr') \<Rightarrow> (case nexts k rr' of (rs, rr'') \<Rightarrow> (r # rs, rr'')))"

text \<open>Any sequence of calls on one cursor, with the results of the calls of \<open>next\<close>.\<close>

datatype 'a rr_op = OpNext | OpRemove 'a

fun rr_run :: "'a rr_op list \<Rightarrow> 'a RoundRobin \<Rightarrow> 'a next_result list \<times> 'a RoundRobin" where
  "rr_run [] rr = ([], rr)"
| "rr_run (OpNext # ops) rr =
     (case next_rr rr of (r, rr') \<Rightarrow> (case rr_run ops rr' of (rs, rr'') \<Rightarrow> (r # rs, rr'')))"
| "rr_run (OpRemove v # ops) rr = rr_run ops (remove rr v)"


section \<open>The loader's settings (loader.cpp, Loader::Settings::process)\<close>

text \<open>
  Modelled from the spec: the BSON documents and their accessors belong to the database
  driver, whose code is not part of the sources. The spec gives the values of a shard-key
  field (\<open>1\<close>, \<open>-1\<close>, \<open>hashed\<close>) and of a load-queue entry (a number), so an element
  is a 32-bit integer, a string, a number of another kind, or something else. The typed
  accessors \<open>Int()\<close> (here \<open>Int_bson\<close>) and \<open>String()\<close> raise an exception on an element of another type;
  \<open>valueStringData()\<close> equals \<open>hashed\<close> for that string only.
\<close>

datatype bson_value = NumberInt int | String string | NumberOther | Other

type_synonym bson_obj = "(string \<times> bson_value) list"

fun Int_bson :: "bson_value \<Rightarrow> int option" where
  "Int_bson (NumberInt i) = Some i"
| "Int_bson _ = None"

fun isNumber :: "bson_value \<Rightarrow> bool" where
  "isNumber (NumberInt _) = True"
| "isNumber NumberOther = True"
| "isNumber _ = False"

fun isHashed :: "bson_value \<Rightarrow> bool" where
  "isHashed (String s) = (s = ''hashed'')"
| "isHashed _ = False"

text \<open>
  What the function reads from outside the sources: the JSON parser, the check of a
  load-queue name, the number of hardware threads (an \<open>unsigned\<close>), the URI prefix and
  the parser of connection strings, which returns the parsed value and an error text.
\<close>

record env =
  fromjson :: "string \<Rightarrow> bson_obj"
  verifyKey :: "string \<Rightarrow> bool"
  hardware_concurrency :: nat
  uriStart :: string
  parse :: "string \<Rightarrow> string \<times> string"

text \<open>
  The fields of \<open>Loader::Settings\<close> that \<open>process\<close> and \<open>setupLoad\<close> read or write.
  The members \<open>loadQueues\<close> of the batcher and dispatch settings are pointers to the
  field \<open>loadQueues\<close> and have no field of their own.
\<close>

record Settings =
  sharded :: bool
  shardKeyJson :: string
  shardKeysBson :: bson_obj
  hashed :: bool
  shardKeyFields :: "string list"
  shardKeyUnique :: bool
  indexHas_id :: bool
  indexPos_id :: nat
  add_id :: bool
  workPath :: string
  loadQueueJson :: string
  loadQueueBson :: bson_obj
  loadQueues :: "string list"
  chunksPerShard :: nat
  threads :: int
  stopBalancer :: bool
  dropDb :: bool
  dropColl :: bool
  dropIndexes :: bool
  connstr :: string
  cs :: string
  endPoint_startImmediate :: bool
  endPoint_directLoad :: bool
  dispatch_sortIndex :: bson_obj
  dispatch_workPath :: string
  dispatch_directLoad :: bool
  batcher_sortIndex :: bson_obj

text \<open>What is written to the standard error stream.\<close>

datatype message =
    NoShardKey
  | UnknownKeyValue string
  | SingleHashedFieldOnly
  | NoSuchQueueType string
  | NotANumber string
  | NoLoadQueues string
  | ThreadsLessThanOne nat int
  | UnableToParse string
  | NoClusterMetadata
  | UnableToConnect string
  | UnableToStopBalancer
  | ShardingDbFailed
  | ShardingCollectionFailed

text \<open>
  How \<open>process\<close> ends when it does not return: one message followed by
  \<open>exit(EXIT_FAILURE)\<close>, or an exception of the driver.
\<close>

datatype failure = ExitFailure message | DriverException

text \<open>Conversion of an integer to \<open>int\<close> (32 bits, two's complement).\<close>

definition to_int32 :: "int \<Rightarrow> int" where
  "to_int32 x = (x + 2 ^ 31) mod 2 ^ 32 - 2 ^ 31"

text \<open>
  The loop over the fields of the shard key (lines 46 to 60); \<open>count\<close> is the number of
  fields seen so far.
\<close>

fun shardKeyLoop :: "bson_obj \<Rightarrow> Settings \<Rightarrow> nat \<Rightarrow> failure + Settings \<times> nat" where
  "shardKeyLoop [] s count = Inr (s, count)"
| "shardKeyLoop ((fieldName, key) # rest) s count =
     (let s1 = (if isHashed key then Inr (s\<lparr>hashed := True\<rparr>)
                else (case Int_bson key of
                        None \<Rightarrow> Inl DriverException
                      | Some i \<Rightarrow>
                          if i \<noteq> 1 \<and> i \<noteq> - 1 then Inl (ExitFailure (UnknownKeyValue fieldName))
                          else Inr s))
      in case s1 of
           Inl f \<Rightarrow> Inl f
         | Inr s2 \<Rightarrow>
             (let s3 = s2\<lparr>shardKeyFields := shardKeyFields s2 @ [fieldName]\<rparr>;
                  s4 = (if \<not> indexHas_id s3 \<and> fieldName = ''_id''
                        then s3\<lparr>indexHas_id := True, indexPos_id := count\<rparr>
                        else s3)
              in shardKeyLoop rest s4 (count + 1)))"

text \<open>Lines 36 to 66: the reset of the \<open>_id\<close> fields and the shard key.\<close>

definition processShardKey :: "env \<Rightarrow> Settings \<Rightarrow> failure + Settings" where
  "processShardKey e s0 =
     (let s = s0\<lparr>endPoint_startImmediate := False, indexHas_id := False,
                 indexPos_id := 2 ^ 64 - 1\<rparr>
      in if sharded s then
           (if shardKeyJson s = [] then Inl (ExitFailure NoShardKey)
            else
              (let s1 = s\<lparr>shardKeysBson := fromjson e (shardKeyJson s)\<rparr>
               in case shardKeyLoop (shardKeysBson s1) s1 0 of
                    Inl f \<Rightarrow> Inl f
                  | Inr (s2, count) \<Rightarrow>
                      if hashed s2 \<and> count > 1 then Inl (ExitFailure SingleHashedFieldOnly)
                      else Inr s2))
         else Inr s)"

text \<open>Lines 68 to 73.\<close>

definition processCopies :: "Settings \<Rightarrow> Settings" where
  "processCopies s =
     (let s1 = (if \<not> indexHas_id s then s\<lparr>add_id := False\<rparr> else s)
      in s1\<lparr>dispatch_sortIndex := shardKeysBson s1,
             batcher_sortIndex := shardKeysBson s1,
             dispatch_workPath := workPath s1,
             dispatch_directLoad := endPoint_directLoad s1\<rparr>)"

text \<open>The loop over the load queues (lines 76 to 88).\<close>

fun loadQueueLoop :: "env \<Rightarrow> bson_obj \<Rightarrow> Settings \<Rightarrow> failure + Settings" where
  "loadQueueLoop e [] s = Inr s"
| "loadQueueLoop e ((fieldName, load) # rest) s =
     (if \<not> verifyKey e fieldName then Inl (ExitFailure (NoSuchQueueType fieldName))
      else if \<not> isNumber load then
        (case load of
           String _ \<Rightarrow> Inl (ExitFailure (NotANumber fieldName))
         | _ \<Rightarrow> Inl DriverException)
      else
        (case Int_bson load of
           None \<Rightarrow> Inl DriverException
         | Some n \<Rightarrow>
             loadQueueLoop e rest
               (s\<lparr>loadQueues := loadQueues s @ replicate (nat n) fieldName\<rparr>)))"

text \<open>Lines 75 to 95.\<close>

definition processLoadQueues :: "env \<Rightarrow> Settings \<Rightarrow> failure + Settings" where
  "processLoadQueues e s =
     (let s1 = s\<lparr>loadQueueBson := fromjson e (loadQueueJson s)\<rparr>
      in case loadQueueLoop e (loadQueueBson s1) s1 of
           Inl f \<Rightarrow> Inl f
         | Inr s2 \<Rightarrow>
             if length (loadQueues s2) < 1
             then Inl (ExitFailure (NoLoadQueues (loadQueueJson s2)))
             else Inr (s2\<lparr>chunksPerShard := length (loadQueues s2)\<rparr>))"

text \<open>
  Lines 97 to 107: the thread count. The arithmetic is that of \<open>unsigned\<close>, and the
  result is converted to \<open>int\<close>.
\<close>

definition processThreads :: "env \<Rightarrow> Settings \<Rightarrow> failure + Settings" where
  "processThreads e s =
     (let originalThreads = threads s
      in if threads s = 0
         then Inr (s\<lparr>threads := to_int32 (int (hardware_concurrency e) * 2)\<rparr>)
         else if threads s < 0 then
           (let s1 = s\<lparr>threads := to_int32 (int (hardware_concurrency e) + threads s)\<rparr>
            in if threads s1 < 1
               then Inl (ExitFailure (ThreadsLessThanOne (hardware_concurrency e) originalThreads))
               else Inr s1)
         else Inr s)"

text \<open>Lines 109 to 119: the balancer and the connection string.\<close>

definition processConnection :: "env \<Rightarrow> Settings \<Rightarrow> failure + Settings" where
  "processConnection e s =
     (let s1 = (if endPoint_directLoad s then s\<lparr>stopBalancer := True\<rparr> else s);
          s2 = (if take (length (uriStart e)) (connstr s1) \<noteq> uriStart e
                then s1\<lparr>connstr := uriStart e @ connstr s1\<rparr> else s1);
          (parsed, error) = parse e (connstr s2);
          s3 = s2\<lparr>cs := parsed\<rparr>
      in if error \<noteq> [] then Inl (ExitFailure (UnableToParse error)) else Inr s3)"

text \<open>\<open>Settings::process()\<close>: the parts above in the order of the source.\<close>

definition process :: "env \<Rightarrow> Settings \<Rightarrow> failure + Settings" where
  "process e s =
     (case processShardKey e s of
        Inl f \<Rightarrow> Inl f
      | Inr s1 \<Rightarrow>
          (case processLoadQueues e (processCopies s1) of
             Inl f \<Rightarrow> Inl f
           | Inr s2 \<Rightarrow>
               (case processThreads e s2 of
                  Inl f \<Rightarrow> Inl f
                | Inr s3 \<Rightarrow> processConnection e s3)))"


section \<open>The setup of the cluster (loader.cpp, Loader::setupLoad)\<close>

text \<open>
  Modelled from the spec: the cluster facade (\<open>_mCluster\<close>) and the database connection
  are external collaborators whose code is not part of the sources. The record holds what
  their calls answer: whether the cluster is sharded, whether \<open>stopBalancerWait\<close>
  reports a failure, the error text of \<open>connect\<close> (empty on success), the value returned
  by \<open>enableSharding\<close> with the field \<open>ok\<close> of the document it fills in, the value
  returned by \<open>shardCollection\<close> (called with the total number of chunks when the key is
  hashed) and the number of shards.
\<close>

record cluster =
  isSharded :: bool
  stopBalancerWait :: bool
  connect :: string
  enableSharding :: "bool \<times> int"
  shardCollection :: "int option \<Rightarrow> bool"
  shards_size :: nat

text \<open>The calls that change the cluster, in the order they are made.\<close>

datatype action =
    BalancerStop
  | DropDatabase
  | DropCollection
  | DropIndexes
  | EnableSharding
  | ShardCollection "int option"
  | WaitForChunksPerShard nat

text \<open>
  How \<open>setupLoad\<close> ends: it returns to the constructor of \<open>Loader\<close>, which goes on to
  build the pipeline, or the program stops by \<open>exit(EXIT_FAILURE)\<close>, by the
  \<open>std::logic_error\<close> or by the failed \<open>assert\<close>.
\<close>

datatype ending = Returns | Exits | ThrowsLogicError | AssertFails

text \<open>Lines 179 to 205: the branch \<open>if (_settings.sharded)\<close> at the end.\<close>

definition setupSharding ::
  "cluster \<Rightarrow> Settings \<Rightarrow> action list \<Rightarrow> ending \<times> message list \<times> action list" where
  "setupSharding c s acts =
     (let err = (if \<not> fst (enableSharding c) \<and> snd (enableSharding c) \<noteq> 0
                 then [ShardingDbFailed] else []);
          acts1 = acts @ [EnableSharding]
      in if \<not> chunksPerShard s > 0 then (AssertFails, err, acts1)
         else if hashed s then
           (let totalChunks = to_int32 (int (chunksPerShard s * shards_size c))
            in if \<not> shardCollection c (Some totalChunks)
               then (Exits, err @ [ShardingCollectionFailed],
                     acts1 @ [ShardCollection (Some totalChunks)])
               else (Returns, err,
                     acts1 @ [ShardCollection (Some totalChunks),
                              WaitForChunksPerShard (chunksPerShard s)]))
         else
           (if \<not> shardCollection c None
            then (Exits, err @ [ShardingCollectionFailed], acts1 @ [ShardCollection None])
            else (Returns, err, acts1 @ [ShardCollection None])))"

text \<open>\<open>Loader::setupLoad()\<close>.\<close>

definition setupLoad :: "cluster \<Rightarrow> Settings \<Rightarrow> ending \<times> message list \<times> action list" where
  "setupLoad c s =
     (if sharded s \<and> \<not> isSharded c then (Exits, [NoClusterMetadata], [])
      else if \<not> isSharded c then (ThrowsLogicError, [], [])
      else
        (let acts1 = (if stopBalancer s then [BalancerStop] else [])
         in if connect c \<noteq> [] then (Exits, [UnableToConnect (connect c)], acts1)
            else
              (let acts2 = acts1 @
                     (if dropDb s then [DropDatabase]
                      else if dropColl s then [DropCollection]
                      else if dropIndexes s then [DropIndexes]
                      else [])
               in if isSharded c \<and> stopBalancer s \<and> stopBalancerWait c
                  then (Exits, [UnableToStopBalancer], acts2)
                  else if sharded s then setupSharding c s acts2
                  else (Returns, [], acts2))))"


subsection \<open>A concrete configuration\<close>

text \<open>
  An environment with four hardware threads, the three queue strategies of the spec,
  a parser that knows a few documents (a string that it does not know is an empty
  document) and a connection-string parser that accepts everything.
\<close>

definition example_env :: env where
  "example_env =
     \<lparr>fromjson = (\<lambda>j.
         if j = ''{_id: 1}'' then [(''_id'', NumberInt 1)]
         else if j = ''{a: 1, b: -1}'' then [(''a'', NumberInt 1), (''b'', NumberInt (- 1))]
         else if j = ''{a: hashed}'' then [(''a'', String ''hashed'')]
         else if j = ''{a: hashed, b: 1}'' then [(''a'', String ''hashed''), (''b'', NumberInt 1)]
         else if j = ''{a: 2}'' then [(''a'', NumberInt 2)]
         else if j = ''{ram: 2}'' then [(''ram'', NumberInt 2)]
         else []),
       verifyKey = (\<lambda>k. k = ''ram'' \<or> k = ''direct'' \<or> k = ''disk''),
       hardware_concurrency = 4,
       uriStart = ''mongodb://'',
       parse = (\<lambda>c. (c, []))\<rparr>"

definition example_settings :: Settings where
  "example_settings =
     \<lparr>sharded = True, shardKeyJson = ''{_id: 1}'', shardKeysBson = [], hashed = False,
      shardKeyFields = [], shardKeyUnique = False, indexHas_id = False, indexPos_id = 0,
      add_id = True, workPath = ''/tmp'', loadQueueJson = ''{ram: 2}'', loadQueueBson = [],
      loadQueues = [], chunksPerShard = 0, threads = 0, stopBalancer = False,
      dropDb = False, dropColl = False, dropIndexes = False, connstr = ''localhost:27017'',
      cs = [], endPoint_startImmediate = True, endPoint_directLoad = False,
      dispatch_sortIndex = [], dispatch_workPath = [], dispatch_directLoad = False,
      batcher_sortIndex = []\<rparr>"

text \<open>
  A sharded cluster that answers every call with success, except \<open>enableSharding\<close>,
  which fails and fills in a document whose field \<open>ok\<close> is the argument.
\<close>

definition example_cluster :: "int \<Rightarrow> cluster" where
  "example_cluster ok =
     \<lparr>isSharded = True, stopBalancerWait = False, connect = [],
      enableSharding = (False, ok), shardCollection = (\<lambda>_. True), shards_size = 2\<rparr>"

section \<open>Properties of the wait queue\<close>

lemma bounded_push: "bounded q \<Longrightarrow> bounded (snd (snd (push q v)))"
  by (simp add: bounded_def push_def full_def Let_def)

lemma bounded_push_resume: "bounded q \<Longrightarrow> bounded (snd (snd (push_resume q v)))"
  by (simp add: bounded_def push_resume_def full_def)

lemma bounded_pop: "bounded q \<Longrightarrow> bounded (snd (snd (pop q)))"
  by (auto simp add: bounded_def pop_def)

lemma bounded_endWait: "bounded q \<Longrightarrow> bounded (snd (endWait q))"
  by (simp add: bounded_def endWait_def)

lemma cap_push: "queueMaxSize (snd (snd (push q v))) = queueMaxSize q"
  by (simp add: push_def Let_def)

lemma cap_push_resume: "queueMaxSize (snd (snd (push_resume q v))) = queueMaxSize q"
  by (simp add: push_resume_def)

lemma cap_pop: "queueMaxSize (snd (snd (pop q))) = queueMaxSize q"
  by (simp add: pop_def)

lemma cap_endWait: "queueMaxSize (snd (endWait q)) = queueMaxSize q"
  by (simp add: endWait_def)

lemma step_wq:
  "wq (step s e) =
     (case e of
        EvPush v \<Rightarrow> snd (snd (push (wq s) v))
      | EvResume i \<Rightarrow>
          (if i < length (parked s) then snd (snd (push_resume (wq s) (parked s ! i)))
           else wq s)
      | EvPop \<Rightarrow> snd (snd (pop (wq s)))
      | EvEndWait \<Rightarrow> snd (endWait (wq s)))"
  by (cases e) (auto split: prod.splits call.splits)

lemma bounded_step: "bounded (wq s) \<Longrightarrow> bounded (wq (step s e))"
  by (cases e)
    (simp_all add: step_wq bounded_push bounded_push_resume bounded_pop bounded_endWait
      del: step.simps)

lemma cap_step: "queueMaxSize (wq (step s e)) = queueMaxSize (wq s)"
  by (cases e)
    (simp_all add: step_wq cap_push cap_push_resume cap_pop cap_endWait del: step.simps)

lemma bounded_run: "bounded (wq s) \<Longrightarrow> bounded (wq (run s evs))"
  unfolding run_def by (induction evs arbitrary: s) (simp_all add: bounded_step del: step.simps)

lemma cap_run: "queueMaxSize (wq (run s evs)) = queueMaxSize (wq s)"
  unfolding run_def by (induction evs arbitrary: s) (simp_all add: cap_step del: step.simps)

lemma bounded_new: "bounded (WaitQueue_new n)"
  by (simp add: bounded_def WaitQueue_new_def)

lemma fst_pops_Suc: "fst (pops (Suc n) q) = fst (pop q) # fst (pops n (snd (snd (pop q))))"
  by (simp split: prod.splits)

lemma pops_endWait:
  "endWaitFlag q \<Longrightarrow>
     fst (pops n q) =
       map (\<lambda>v. Returned (Some v)) (take n (queue q))
       @ replicate (n - length (queue q)) (Returned None)"
proof (induction n arbitrary: q)
  case 0
  then show ?case by simp
next
  case (Suc n)
  show ?case
  proof (cases "queue q")
    case Nil
    with Suc.prems have p: "pop q = (Returned None, NoNotify, q)"
      by (simp add: pop_def)
    from Suc.IH [OF Suc.prems] Nil show ?thesis
      by (simp only: fst_pops_Suc p) simp
  next
    case (Cons x xs)
    let ?q' = "q\<lparr>queue := xs\<rparr>"
    from Cons have p: "fst (pop q) = Returned (Some x)" "snd (snd (pop q)) = ?q'"
      by (simp_all add: pop_def)
    have "endWaitFlag ?q'" using Suc.prems by simp
    from Suc.IH [OF this] Cons show ?thesis
      by (simp only: fst_pops_Suc p) simp
  qed
qed

text \<open>
  Claim C2. A call of \<open>pop\<close> on an empty queue parks while \<open>endWait\<close> has not been called
  and returns \<open>false\<close> once it has. After \<open>endWait\<close>, any number \<open>n\<close> of calls of
  \<open>pop\<close> return the queued values in the order of the queue, front first, and then
  \<open>false\<close> for every further call; none of them parks. Calling \<open>endWait\<close> a second
  time changes nothing.
\<close>

theorem pop_endWait_drain:
  "(queue q = [] \<and> \<not> endWaitFlag q \<longrightarrow> pop q = (Waiting, NoNotify, q))
   \<and> (queue q = [] \<and> endWaitFlag q \<longrightarrow> pop q = (Returned None, NoNotify, q))
   \<and> fst (pops n (snd (endWait q))) =
        map (\<lambda>v. Returned (Some v)) (take n (queue q))
        @ replicate (n - length (queue q)) (Returned None)
   \<and> endWait (snd (endWait q)) = endWait q"
proof -
  have 1: "queue q = [] \<and> \<not> endWaitFlag q \<longrightarrow> pop q = (Waiting, NoNotify, q)"
    by (simp add: pop_def)
  have 2: "queue q = [] \<and> endWaitFlag q \<longrightarrow> pop q = (Returned None, NoNotify, q)"
    by (simp add: pop_def)
  have "endWaitFlag (snd (endWait q))" by (simp add: endWait_def)
  from pops_endWait [OF this, of n]
  have 3: "fst (pops n (snd (endWait q))) =
        map (\<lambda>v. Returned (Some v)) (take n (queue q))
        @ replicate (n - length (queue q)) (Returned None)"
    by (simp add: endWait_def)
  have 4: "endWait (snd (endWait q)) = endWait q"
    by (simp add: endWait_def)
  from 1 2 3 4 show ?thesis by blast
qed

lemmas wq_defs = run_def system_new_def WaitQueue_new_def push_def push_resume_def pop_def
  endWait_def full_def tolimit_def Let_def

theorem pop_endWait_drain_witness:
  "pop (WaitQueue_new 2 :: nat WaitQueue) = (Waiting, NoNotify, WaitQueue_new 2)
   \<and> pop (snd (endWait (WaitQueue_new 2 :: nat WaitQueue)))
       = (Returned None, NoNotify, snd (endWait (WaitQueue_new 2)))
   \<and> fst (pops 3 (snd (endWait (pushes [4, 5 :: nat] (WaitQueue_new 2)))))
       = [Returned (Some 4), Returned (Some 5), Returned None]"
  using pop_endWait_drain [of "WaitQueue_new 2 :: nat WaitQueue" 0]
    pop_endWait_drain [of "snd (endWait (WaitQueue_new 2 :: nat WaitQueue))" 0]
    pop_endWait_drain [of "pushes [4, 5 :: nat] (WaitQueue_new 2)" 3]
  by (simp add: wq_defs)

text \<open>
  Claim C3. In every execution of producers and consumers on a queue built with capacity
  \<open>n\<close> (calls of \<open>push\<close>, parked producers woken at any moment, calls of \<open>pop\<close> and of
  \<open>endWait\<close>), the queue never holds more than \<open>n\<close> values; a \<open>push\<close> that finds the
  size equal to the capacity, on entry or when woken, parks and inserts nothing.
\<close>

theorem queue_size_bounded: "length (queue (wq (run (system_new n) evs))) \<le> n
   \<and> queueMaxSize (wq (run (system_new n) evs)) = n
   \<and> (length (queue q) = queueMaxSize q \<longrightarrow>
        push q v = (Waiting, NoNotify, q) \<and> push_resume q v = (Waiting, NoNotify, q))"
proof -
  have "bounded (wq (system_new n :: 'a system))"
    by (simp add: system_new_def bounded_new)
  from bounded_run [OF this, of evs]
  have "length (queue (wq (run (system_new n) evs))) \<le> n"
    by (simp add: bounded_def cap_run) (simp add: system_new_def WaitQueue_new_def)
  moreover have "queueMaxSize (wq (run (system_new n) evs)) = n"
    by (simp add: cap_run) (simp add: system_new_def WaitQueue_new_def)
  moreover have "length (queue q) = queueMaxSize q \<longrightarrow>
        push q v = (Waiting, NoNotify, q) \<and> push_resume q v = (Waiting, NoNotify, q)"
    by (simp add: push_def push_resume_def full_def)
  ultimately show ?thesis by blast
qed

theorem queue_size_bounded_witness:
  "length (queue (wq (run (system_new 2) [EvPush (1::nat), EvPush 2, EvPush 3, EvPop, EvResume 0, EvPush 4]))) \<le> 2
  \<and> push (pushes [1, 2 :: nat] (WaitQueue_new 2)) 3 = (Waiting, NoNotify, pushes [1, 2] (WaitQueue_new 2))
  \<and> queue (wq (run (system_new 2) [EvPush (1::nat), EvPush 2, EvPush 3, EvPop, EvResume 0, EvPush 4])) = [2, 3]
  \<and> parked (run (system_new 2) [EvPush (1::nat), EvPush 2, EvPush 3, EvPop, EvResume 0, EvPush 4]) = [4]"
  using queue_size_bounded [of 2 "[EvPush (1::nat), EvPush 2, EvPush 3, EvPop, EvResume 0, EvPush 4]" "pushes [1, 2 :: nat] (WaitQueue_new 2)" 3]
  by (simp add: wq_defs)

text \<open>
  Claim C4 says that a value pushed after \<open>endWait\<close> is not added. On a queue of capacity 2
  the value 7 pushed after \<open>endWait\<close> is in the queue, and the next \<open>pop\<close> returns it.
\<close>

theorem push_after_endWait_counterexample:
  "push (snd (endWait (WaitQueue_new 2))) (7::nat)
     = (Returned (), NotifyOne, \<lparr>queueMaxSize = 2, queue = [7], endWaitFlag = True\<rparr>)
   \<and> fst (pop \<lparr>queueMaxSize = 2, queue = [7::nat], endWaitFlag = True\<rparr>) = Returned (Some 7)"
  by (simp add: wq_defs)

text \<open>
  Claim C4, amended. \<open>push\<close> does not read \<open>_endWait\<close>: after \<open>endWait\<close> it returns, parks
  and notifies exactly as it would have before, on entry and when woken, and the queue it
  leaves differs by the flag only; when the queue is not full the value is appended. The
  calls of \<open>pop\<close> that follow return the values queued before it, then the value itself,
  and \<open>false\<close> from then on.
\<close>

theorem push_ignores_endWait:
  "push (snd (endWait q)) v =
     (fst (push q v), fst (snd (push q v)), snd (endWait (snd (snd (push q v)))))
   \<and> push_resume (snd (endWait q)) v =
     (fst (push_resume q v), fst (snd (push_resume q v)),
      snd (endWait (snd (snd (push_resume q v)))))
   \<and> (\<not> full q \<longrightarrow> queue (snd (snd (push (snd (endWait q)) v))) = queue q @ [v])
   \<and> (\<not> full q \<longrightarrow>
        fst (pops n (snd (snd (push (snd (endWait q)) v)))) =
          map (\<lambda>x. Returned (Some x)) (take n (queue q @ [v]))
          @ replicate (n - Suc (length (queue q))) (Returned None))
   \<and> (\<not> full q \<longrightarrow>
        fst (pops n (snd (snd (push_resume (snd (endWait q)) v)))) =
          map (\<lambda>x. Returned (Some x)) (take n (queue q @ [v]))
          @ replicate (n - Suc (length (queue q))) (Returned None))"
proof -
  have a: "push (snd (endWait q)) v =
     (fst (push q v), fst (snd (push q v)), snd (endWait (snd (snd (push q v)))))
   \<and> push_resume (snd (endWait q)) v =
     (fst (push_resume q v), fst (snd (push_resume q v)),
      snd (endWait (snd (snd (push_resume q v)))))
   \<and> (\<not> full q \<longrightarrow> queue (snd (snd (push (snd (endWait q)) v))) = queue q @ [v])"
    by (simp add: push_def push_resume_def endWait_def full_def Let_def)
  have b: "fst (pops n (snd (snd (push (snd (endWait q)) v)))) =
          map (\<lambda>x. Returned (Some x)) (take n (queue q @ [v]))
          @ replicate (n - Suc (length (queue q))) (Returned None)"
    if nf: "\<not> full q"
  proof -
    let ?q' = "snd (snd (push (snd (endWait q)) v))"
    from nf have s: "endWaitFlag ?q'" "queue ?q' = queue q @ [v]"
      by (simp_all add: push_def endWait_def full_def Let_def)
    from pops_endWait [OF s(1), of n] show ?thesis
      unfolding s(2) by simp
  qed
  have c: "fst (pops n (snd (snd (push_resume (snd (endWait q)) v)))) =
          map (\<lambda>x. Returned (Some x)) (take n (queue q @ [v]))
          @ replicate (n - Suc (length (queue q))) (Returned None)"
    if nf: "\<not> full q"
  proof -
    let ?q' = "snd (snd (push_resume (snd (endWait q)) v))"
    from nf have s: "endWaitFlag ?q'" "queue ?q' = queue q @ [v]"
      by (simp_all add: push_resume_def endWait_def full_def)
    from pops_endWait [OF s(1), of n] show ?thesis
      unfolding s(2) by simp
  qed
  from a b c show ?thesis by blast
qed

theorem push_ignores_endWait_witness:
  "\<not> full (WaitQueue_new 2 :: nat WaitQueue)
   \<and> queue (snd (snd (push (snd (endWait (WaitQueue_new 2))) (7::nat)))) = [7]
   \<and> fst (pops 2 (snd (snd (push (snd (endWait (WaitQueue_new 2))) (7::nat)))))
       = [Returned (Some 7), Returned None]"
proof -
  have nf: "\<not> full (WaitQueue_new 2 :: nat WaitQueue)"
    by (simp add: full_def WaitQueue_new_def)
  have e: "queue (WaitQueue_new 2 :: nat WaitQueue) = []"
    by (simp add: WaitQueue_new_def)
  note t = push_ignores_endWait [of "WaitQueue_new 2" "7::nat" 2]
  from t nf have "queue (snd (snd (push (snd (endWait (WaitQueue_new 2))) (7::nat))))
      = queue (WaitQueue_new 2) @ [7]"
    by blast
  then have 1: "queue (snd (snd (push (snd (endWait (WaitQueue_new 2))) (7::nat)))) = [7]"
    unfolding e by simp
  from t nf have "fst (pops 2 (snd (snd (push (snd (endWait (WaitQueue_new 2))) (7::nat)))))
      = map (\<lambda>x. Returned (Some x)) (take 2 (queue (WaitQueue_new 2) @ [7]))
        @ replicate (2 - Suc (length (queue (WaitQueue_new 2 :: nat WaitQueue))))
            (Returned None)"
    by blast
  then have 2: "fst (pops 2 (snd (snd (push (snd (endWait (WaitQueue_new 2))) (7::nat)))))
       = [Returned (Some 7), Returned None]"
    unfolding e by simp
  from nf 1 2 show ?thesis by (intro conjI)
qed

lemma tolimit_bounded:
  assumes "queueMaxSize q < 2 ^ 64" and "bounded q"
  shows "tolimit q = queueMaxSize q - length (queue q)"
proof -
  from assms have l: "length (queue q) \<le> queueMaxSize q" "length (queue q) < 2 ^ 64"
    by (simp_all add: bounded_def)
  have "queueMaxSize q + 2 ^ 64 - length (queue q) mod 2 ^ 64
        = 2 ^ 64 + (queueMaxSize q - length (queue q))"
    using l by simp
  then have "tolimit q = (2 ^ 64 + (queueMaxSize q - length (queue q))) mod 2 ^ 64"
    by (simp only: tolimit_def)
  also have "\<dots> = (queueMaxSize q - length (queue q)) mod 2 ^ 64"
    by (simp only: mod_add_self1)
  also have "\<dots> = queueMaxSize q - length (queue q)"
    using assms(1) by simp
  finally show ?thesis .
qed

text \<open>
  On a queue within its capacity, the path of \<open>push\<close> that finds room on entry notifies
  one thread when the size before the insertion is 0 and all threads when it is 1, and
  a \<open>pop\<close> that returns a value notifies one thread when it starts at the capacity and
  all threads when it starts one below it.
\<close>

lemma wake_on_entry_and_pop:
  assumes "queueMaxSize q < 2 ^ 64" and "bounded q"
  shows "fst (snd (push q v)) =
           (if full q then NoNotify
            else if length (queue q) = 0 then NotifyOne
            else if length (queue q) = 1 then NotifyAll
            else NoNotify)"
    and "fst (snd (pop q)) =
           (if queue q = [] then NoNotify
            else if length (queue q) = queueMaxSize q then NotifyOne
            else if Suc (length (queue q)) = queueMaxSize q then NotifyAll
            else NoNotify)"
proof -
  show "fst (snd (push q v)) =
           (if full q then NoNotify
            else if length (queue q) = 0 then NotifyOne
            else if length (queue q) = 1 then NotifyAll
            else NoNotify)"
    by (simp add: push_def Let_def)
  show "fst (snd (pop q)) =
           (if queue q = [] then NoNotify
            else if length (queue q) = queueMaxSize q then NotifyOne
            else if Suc (length (queue q)) = queueMaxSize q then NotifyAll
            else NoNotify)"
    using assms(2) by (auto simp add: pop_def tolimit_bounded [OF assms] bounded_def)
qed

text \<open>
  Claim C5. The claim asks for a notification of one consumer on every push that takes
  the size from 0 to 1. On a queue of capacity 1: a first push inserts 10 and notifies
  one thread; a second producer finds the queue full and parks; a pop returns 10 and
  notifies one thread; a second consumer finds the queue empty and parks; the parked
  producer, woken, inserts 20 and takes the size from 0 to 1 without any notification,
  so the parked consumer is not woken although a value is queued; a third producer finds
  the queue full and parks as well.
\<close>

theorem resumed_push_issues_no_wake:
  "push (WaitQueue_new 1) (10::nat)
     = (Returned (), NotifyOne, \<lparr>queueMaxSize = 1, queue = [10], endWaitFlag = False\<rparr>)
   \<and> push \<lparr>queueMaxSize = 1, queue = [10::nat], endWaitFlag = False\<rparr> 20
     = (Waiting, NoNotify, \<lparr>queueMaxSize = 1, queue = [10], endWaitFlag = False\<rparr>)
   \<and> pop \<lparr>queueMaxSize = 1, queue = [10::nat], endWaitFlag = False\<rparr>
     = (Returned (Some 10), NotifyOne, \<lparr>queueMaxSize = 1, queue = [], endWaitFlag = False\<rparr>)
   \<and> pop \<lparr>queueMaxSize = 1, queue = [] :: nat list, endWaitFlag = False\<rparr>
     = (Waiting, NoNotify, \<lparr>queueMaxSize = 1, queue = [], endWaitFlag = False\<rparr>)
   \<and> push_resume \<lparr>queueMaxSize = 1, queue = [], endWaitFlag = False\<rparr> (20::nat)
     = (Returned (), NoNotify, \<lparr>queueMaxSize = 1, queue = [20], endWaitFlag = False\<rparr>)
   \<and> push \<lparr>queueMaxSize = 1, queue = [20::nat], endWaitFlag = False\<rparr> 30
     = (Waiting, NoNotify, \<lparr>queueMaxSize = 1, queue = [20], endWaitFlag = False\<rparr>)"
  by (simp add: wq_defs)

section \<open>Properties of the round-robin cursor\<close>

lemma rr_valid_new: "rr_valid (RoundRobin_new xs)"
  by (cases xs) (simp_all add: rr_valid_def RoundRobin_new_def init_def)

lemma rr_valid_remove: "rr_valid (remove rr v)"
  by (cases "filter (\<lambda>y. y \<noteq> v) (container rr)") (simp_all add: rr_valid_def remove_def init_def)

lemma container_next: "container (snd (next_rr rr)) = container rr"
  by (simp add: next_rr_def Let_def)

lemma rr_valid_next: "rr_valid rr \<Longrightarrow> rr_valid (snd (next_rr rr))"
  by (auto simp add: rr_valid_def next_rr_def Let_def)

lemma next_result:
  "rr_valid rr \<Longrightarrow> fst (next_rr rr) = NextFalse \<and> container rr = []
     \<or> (\<exists>x \<in> set (container rr). fst (next_rr rr) = NextTrue x)"
  by (auto simp add: rr_valid_def next_rr_def Let_def)

lemma fst_rr_run_next:
  "fst (rr_run (OpNext # ops) rr) = fst (next_rr rr) # fst (rr_run ops (snd (next_rr rr)))"
  by (simp split: prod.splits)

lemma rr_run_results:
  "rr_valid rr \<Longrightarrow> v \<notin> set (container rr) \<Longrightarrow>
     NextTrue v \<notin> set (fst (rr_run ops rr)) \<and> NextUndefined \<notin> set (fst (rr_run ops rr))"
proof (induction ops arbitrary: rr)
  case Nil
  then show ?case by simp
next
  case (Cons op ops)
  show ?case
  proof (cases op)
    case OpNext
    from Cons.prems next_result [of rr]
    have h: "fst (next_rr rr) \<noteq> NextTrue v" "fst (next_rr rr) \<noteq> NextUndefined"
      by auto
    have "rr_valid (snd (next_rr rr))" "v \<notin> set (container (snd (next_rr rr)))"
      using Cons.prems by (simp_all add: rr_valid_next container_next)
    from Cons.IH [OF this] h show ?thesis
      unfolding OpNext fst_rr_run_next by simp
  next
    case (OpRemove w)
    have "rr_valid (remove rr w)" by (rule rr_valid_remove)
    moreover have "v \<notin> set (container (remove rr w))"
      using Cons.prems by (simp add: remove_def init_def)
    ultimately show ?thesis
      using Cons.IH [of "remove rr w"] by (simp add: OpRemove)
  qed
qed

text \<open>
  Claim C8. After \<open>remove(v)\<close>, whatever calls of \<open>next\<close> and of \<open>remove\<close> follow, no call
  of \<open>next\<close> yields \<open>v\<close> and none reads past the end of the container: every instance
  of \<open>v\<close> is gone from the container, and the cursor is at the first element when one is
  left.
\<close>

theorem removed_value_never_returned:
  "NextTrue v \<notin> set (fst (rr_run ops (remove rr v)))
   \<and> NextUndefined \<notin> set (fst (rr_run ops (remove rr v)))
   \<and> v \<notin> set (container (remove rr v))
   \<and> (container (remove rr v) = [] \<or> position (remove rr v) < length (container (remove rr v)))"
proof -
  have c: "v \<notin> set (container (remove rr v))"
    by (simp add: remove_def init_def)
  have "rr_valid (remove rr v)" by (rule rr_valid_remove)
  from rr_run_results [OF this c, of ops] c this show ?thesis
    by (simp add: rr_valid_def)
qed

lemmas rr_defs = RoundRobin_new_def init_def next_rr_def remove_def Let_def


theorem removed_value_never_returned_witness:
  "fst (rr_run [OpNext, OpNext, OpRemove 1, OpNext] (remove (RoundRobin_new [1::nat, 2, 3, 2]) 2))
    = [NextTrue 3, NextTrue 1, NextTrue 3]
   \<and> NextTrue 2 \<notin> set  (fst (rr_run [OpNext, OpNext, OpRemove 1, OpNext] (remove (RoundRobin_new [1::nat, 2, 3, 2]) 2)))"
  using removed_value_never_returned [of "2::nat" "[OpNext, OpNext, OpRemove 1, OpNext]" "RoundRobin_new [1::nat, 2, 3, 2]"]
  by (simp add: rr_defs)



lemma filter_eq_upt: "length (filter (\<lambda>i. i = j) [0..<n]) = (if j < n then 1 else 0)"
  by (induction n) auto

lemma window_count:
  "0 < n \<Longrightarrow> j < n \<Longrightarrow> length (filter (\<lambda>i. i mod n = j) [a..<a + n]) = 1"
proof (induction a)
  case 0
  have "filter (\<lambda>i. i mod n = j) [0..<n] = filter (\<lambda>i. i = j) [0..<n]"
    by (rule filter_cong) auto
  then show ?case using 0 by (simp add: filter_eq_upt)
next
  case (Suc a)
  have a: "[a..<a + n] = a # [Suc a..<a + n]"
    using Suc.prems by (simp add: upt_conv_Cons)
  have b: "[Suc a..<Suc a + n] = [Suc a..<a + n] @ [a + n]"
    using Suc.prems by simp
  from Suc.IH [OF Suc.prems] show ?case
    unfolding a b by (simp split: if_splits)
qed

lemma window_step:
  assumes "0 < n" and "j < n"
  shows "length (filter (\<lambda>i. i mod n = j) [a..<a + (k + n)])
         = Suc (length (filter (\<lambda>i. i mod n = j) [a..<a + k]))"
proof -
  have "[a..<a + k + n] = [a..<a + k] @ [a + k..<a + k + n]"
    by (rule upt_add_eq_append) simp
  then have "[a..<a + (k + n)] = [a..<a + k] @ [a + k..<a + k + n]"
    by (simp only: add.assoc)
  then show ?thesis
    using window_count [OF assms, of "a + k"] by simp
qed

lemma window_short:
  assumes "0 < n" and "j < n" and "k \<le> n"
  shows "length (filter (\<lambda>i. i mod n = j) [a..<a + k]) \<le> 1"
proof -
  from assms(3) obtain d where d: "n = k + d" by (auto simp: le_iff_add)
  have "[a..<a + k + d] = [a..<a + k] @ [a + k..<a + k + d]"
    by (rule upt_add_eq_append) simp
  then have "[a..<a + n] = [a..<a + k] @ [a + k..<a + k + d]"
    unfolding d by (simp only: add.assoc)
  then have "length (filter (\<lambda>i. i mod n = j) [a..<a + k])
     \<le> length (filter (\<lambda>i. i mod n = j) [a..<a + n])"
    by simp
  then show ?thesis using window_count [OF assms(1,2), of a] by simp
qed

lemma window_div:
  assumes "0 < n" and "j < n"
  shows "length (filter (\<lambda>i. i mod n = j) [a..<a + k])
         = k div n + length (filter (\<lambda>i. i mod n = j) [a..<a + k mod n])"
proof (induction k rule: less_induct)
  case (less k)
  show ?case
  proof (cases "k < n")
    case True
    then show ?thesis by simp
  next
    case False
    then have "k = (k - n) + n" by simp
    then obtain k' where k: "k = k' + n" ..
    then have "k' < k" using assms(1) by simp
    have dm: "(k' + n) div n = Suc (k' div n)" "(k' + n) mod n = k' mod n"
      using assms(1) by (simp_all add: div_add_self2)
    from less.IH [OF \<open>k' < k\<close>] show ?thesis
      unfolding k dm using window_step [OF assms, of a k'] by simp
  qed
qed

lemma ceil_div:
  assumes "0 < (n::nat)"
  shows "(k + n - 1) div n = k div n + (if k mod n = 0 then 0 else 1)"
proof -
  define q where "q = k div n"
  define r where "r = k mod n"
  have k: "k = r + q * n" by (simp add: q_def r_def)
  have r: "r < n" using assms by (simp add: r_def)
  show ?thesis
  proof (cases "r = 0")
    case True
    have "k + n - 1 = (n - 1) + q * n" using assms by (simp add: k True)
    then have "(k + n - 1) div n = q + (n - 1) div n"
      using assms by (simp only: div_mult_self1)
    then show ?thesis using True assms by (simp add: q_def [symmetric] r_def [symmetric])
  next
    case False
    have "k + n - 1 = (r - 1) + (q + 1) * n" using assms False by (simp add: k)
    then have "(k + n - 1) div n = (q + 1) + (r - 1) div n"
      using assms by (simp only: div_mult_self1)
    moreover have "(r - 1) div n = 0" using r by simp
    ultimately show ?thesis using False by (simp add: q_def [symmetric] r_def [symmetric])
  qed
qed

lemma count_list_map_filter:
  "count_list (map f l) y = length (filter (\<lambda>t. f t = y) l)"
  by (induction l) auto

lemma next_in_range:
  assumes "position rr < length (container rr)"
  shows "next_rr rr =
    (NextTrue (container rr ! (Suc (position rr) mod length (container rr))),
     rr\<lparr>position := Suc (position rr) mod length (container rr)\<rparr>)"
proof -
  from assms have ne: "container rr \<noteq> []" by auto
  show ?thesis
  proof (cases "Suc (position rr) = length (container rr)")
    case True
    then show ?thesis using ne assms by (simp add: next_rr_def)
  next
    case False
    with assms have "Suc (position rr) < length (container rr)" by simp
    then show ?thesis using ne assms False by (simp add: next_rr_def)
  qed
qed

lemma mod_shift: "Suc (Suc p mod n + t) mod n = Suc (Suc (p + t)) mod n"
proof -
  have "Suc (Suc p mod n + t) mod n = (Suc p mod n + Suc t) mod n" by simp
  also have "\<dots> = (Suc p + Suc t) mod n" by (rule mod_add_left_eq)
  finally show ?thesis by simp
qed

lemma fst_nexts_Suc: "fst (nexts (Suc k) rr) = fst (next_rr rr) # fst (nexts k (snd (next_rr rr)))"
  by (simp split: prod.splits)

lemma snd_nexts_Suc: "snd (nexts (Suc k) rr) = snd (nexts k (snd (next_rr rr)))"
  by (simp split: prod.splits)

lemma nexts_values:
  "position rr < length (container rr) \<Longrightarrow>
     fst (nexts k rr) =
       map (\<lambda>t. NextTrue (container rr ! ((Suc (position rr) + t) mod length (container rr))))
         [0..<k]"
proof (induction k arbitrary: rr)
  case 0
  then show ?case by simp
next
  case (Suc k)
  let ?n = "length (container rr)"
  let ?rr' = "rr\<lparr>position := Suc (position rr) mod ?n\<rparr>"
  have nx: "next_rr rr = (NextTrue (container rr ! (Suc (position rr) mod ?n)), ?rr')"
    by (rule next_in_range [OF Suc.prems])
  have "0 < ?n" using Suc.prems by auto
  then have "position ?rr' < length (container ?rr')" by simp
  from Suc.IH [OF this]
  have ih: "fst (nexts k ?rr') =
      map (\<lambda>t. NextTrue (container rr ! ((Suc (Suc (position rr)) + t) mod ?n))) [0..<k]"
    by (simp add: mod_shift)
  have "[0..<Suc k] = 0 # map Suc [0..<k]"
    by (simp only: upt_conv_Cons [of 0 "Suc k"] map_Suc_upt)
  then show ?case
    unfolding fst_nexts_Suc nx by (simp add: ih del: upt_Suc)
qed

lemma nexts_state:
  "position rr < length (container rr) \<Longrightarrow>
     container (snd (nexts m rr)) = container rr
     \<and> position (snd (nexts m rr)) < length (container rr)"
proof (induction m arbitrary: rr)
  case 0
  then show ?case by simp
next
  case (Suc m)
  let ?n = "length (container rr)"
  let ?rr' = "rr\<lparr>position := Suc (position rr) mod ?n\<rparr>"
  have nx: "snd (next_rr rr) = ?rr'"
    by (simp add: next_in_range [OF Suc.prems])
  have "0 < ?n" using Suc.prems by auto
  then have "position ?rr' < length (container ?rr')" by simp
  from Suc.IH [OF this] show ?case
    unfolding snd_nexts_Suc nx by simp
qed

lemma nexts_count:
  assumes v: "position rr < length (container rr)"
    and d: "distinct (container rr)" and x: "x \<in> set (container rr)"
  shows "count_list (fst (nexts k rr)) (NextTrue x) = k div length (container rr)
       \<or> count_list (fst (nexts k rr)) (NextTrue x) = (k + length (container rr) - 1) div length (container rr)"
proof -
  let ?xs = "container rr"
  let ?n = "length ?xs"
  let ?a = "Suc (position rr)"
  from v have n: "0 < ?n" by auto
  from x obtain j where j: "j < ?n" "?xs ! j = x" by (auto simp: in_set_conv_nth)
  have eq: "\<And>t. (?xs ! (Suc (position rr + t) mod ?n) = x)
                   = (Suc (position rr + t) mod ?n = j)"
    unfolding j(2) [symmetric] using d j(1) mod_less_divisor [OF n]
    by (simp add: nth_eq_iff_index_eq)
  have "count_list (fst (nexts k rr)) (NextTrue x)
        = length (filter (\<lambda>t. (?a + t) mod ?n = j) [0..<k])"
    by (simp add: nexts_values [OF v] count_list_map_filter eq)
  also have "\<dots> = length (filter (\<lambda>i. i mod ?n = j) (map (\<lambda>t. t + ?a) [0..<k]))"
    by (simp add: filter_map comp_def add.commute)
  also have "map (\<lambda>t. t + ?a) [0..<k] = [?a..<?a + k]"
    by (simp only: map_add_upt add.commute)
  finally have "count_list (fst (nexts k rr)) (NextTrue x)
        = length (filter (\<lambda>i. i mod ?n = j) [?a..<?a + k])" .
  from this window_div [OF n j(1), of ?a k]
  have c: "count_list (fst (nexts k rr)) (NextTrue x)
        = k div ?n + length (filter (\<lambda>i. i mod ?n = j) [?a..<?a + k mod ?n])"
    by (rule trans)
  have s: "length (filter (\<lambda>i. i mod ?n = j) [?a..<?a + k mod ?n]) \<le> 1"
    using n by (intro window_short [OF n j(1)]) simp
  show ?thesis
  proof (cases "k mod ?n = 0")
    case True
    then show ?thesis using c by simp
  next
    case False
    then have "(k + ?n - 1) div ?n = k div ?n + 1" using ceil_div [OF n, of k] by simp
    then show ?thesis using c s by (simp only:) linarith
  qed
qed

text \<open>
  Claim C7. For a cursor built over a container \<open>xs\<close> of \<open>n \<ge> 1\<close> distinct elements, after
  any number \<open>m\<close> of earlier calls, the next \<open>k\<close> calls of \<open>next\<close> all succeed with an
  element of \<open>xs\<close>, and each element \<open>x\<close> of \<open>xs\<close> is returned \<open>k div n\<close> times (the
  floor of \<open>k / n\<close>) or \<open>(k + n - 1) div n\<close> times (its ceiling).
\<close>

theorem round_robin_fair:
  assumes "distinct xs" and "xs \<noteq> []" and "x \<in> set xs"
  shows "(count_list (fst (nexts k (snd (nexts m (RoundRobin_new xs))))) (NextTrue x)
            = k div length xs
          \<or> count_list (fst (nexts k (snd (nexts m (RoundRobin_new xs))))) (NextTrue x)
            = (k + length xs - 1) div length xs)
       \<and> set (fst (nexts k (snd (nexts m (RoundRobin_new xs))))) \<subseteq> NextTrue ` set xs"
proof -
  let ?rr = "snd (nexts m (RoundRobin_new xs))"
  have "position (RoundRobin_new xs) < length (container (RoundRobin_new xs))"
    using assms(2) by (simp add: RoundRobin_new_def init_def)
  from nexts_state [OF this, of m]
  have st: "container ?rr = xs" "position ?rr < length (container ?rr)"
    by (simp_all add: RoundRobin_new_def init_def)
  from nexts_count [OF st(2), of x k] assms st(1)
  have 1: "count_list (fst (nexts k ?rr)) (NextTrue x) = k div length xs
          \<or> count_list (fst (nexts k ?rr)) (NextTrue x) = (k + length xs - 1) div length xs"
    by simp
  have n: "0 < length xs" using assms(2) by simp
  have 2: "set (fst (nexts k ?rr)) \<subseteq> NextTrue ` set xs"
    using st n by (auto simp add: nexts_values [OF st(2)])
  from 1 2 show ?thesis by blast
qed


theorem round_robin_fair_witness:
  "distinct [1::nat, 2, 3] \<and> [1::nat, 2, 3] \<noteq> [] \<and> 1 \<in> set [1::nat, 2, 3]
   \<and> fst (nexts 7 (snd (nexts 2 (RoundRobin_new [1::nat, 2, 3]))))
     = [NextTrue 1, NextTrue 2, NextTrue 3, NextTrue 1, NextTrue 2, NextTrue 3, NextTrue 1]
   \<and> (count_list (fst (nexts 7 (snd (nexts 2 (RoundRobin_new [1::nat, 2, 3]))))) (NextTrue 1)
         = 7 div length [1::nat, 2, 3]
       \<or> count_list (fst (nexts 7 (snd (nexts 2 (RoundRobin_new [1::nat, 2, 3]))))) (NextTrue 1)
         = (7 + length [1::nat, 2, 3] - 1) div length [1::nat, 2, 3])"
proof -
  have h: "distinct [1::nat, 2, 3]" "[1::nat, 2, 3] \<noteq> []" "1 \<in> set [1::nat, 2, 3]"
    by simp_all
  have v: "fst (nexts 7 (snd (nexts 2 (RoundRobin_new [1::nat, 2, 3]))))
     = [NextTrue 1, NextTrue 2, NextTrue 3, NextTrue 1, NextTrue 2, NextTrue 3, NextTrue 1]"
    by (simp add: rr_defs eval_nat_numeral)
  from round_robin_fair [OF h, of 7 2] h v show ?thesis by blast
qed


section \<open>Properties of the settings and of the cluster setup\<close>

lemmas process_defs = process_def processShardKey_def processCopies_def processLoadQueues_def
  processThreads_def processConnection_def to_int32_def Let_def example_env_def
  example_settings_def

lemmas setup_defs = setupLoad_def setupSharding_def example_cluster_def to_int32_def Let_def

lemma shardKeyLoop_Cons:
  "shardKeyLoop ((f, v) # rest) s c =
     (if isHashed v \<or> v = NumberInt 1 \<or> v = NumberInt (- 1)
      then shardKeyLoop rest
             (if \<not> indexHas_id s \<and> f = ''_id''
              then s\<lparr>hashed := (hashed s \<or> isHashed v),
                     shardKeyFields := shardKeyFields s @ [f],
                     indexHas_id := True, indexPos_id := c\<rparr>
              else s\<lparr>hashed := (hashed s \<or> isHashed v),
                     shardKeyFields := shardKeyFields s @ [f]\<rparr>)
             (Suc c)
      else Inl (case Int_bson v of None \<Rightarrow> DriverException
                | Some i \<Rightarrow> ExitFailure (UnknownKeyValue f)))"
  by (cases v) (auto simp add: Let_def)

lemma shardKeyLoop_Inr:
  "shardKeyLoop key s c = Inr (s', c') \<Longrightarrow>
     (\<forall>(f, v) \<in> set key. isHashed v \<or> v = NumberInt 1 \<or> v = NumberInt (- 1))
     \<and> c' = c + length key
     \<and> hashed s' = (hashed s \<or> (\<exists>(f, v) \<in> set key. isHashed v))
     \<and> indexHas_id s' = (indexHas_id s \<or> ''_id'' \<in> fst ` set key)
     \<and> add_id s' = add_id s \<and> threads s' = threads s \<and> sharded s' = sharded s
     \<and> shardKeysBson s' = shardKeysBson s \<and> shardKeyJson s' = shardKeyJson s
     \<and> shardKeyFields s' = shardKeyFields s @ map fst key"
proof (induction key arbitrary: s c)
  case Nil
  then show ?case by simp
next
  case (Cons fv rest)
  obtain f v where fv: "fv = (f, v)" by (cases fv)
  let ?s4 = "if \<not> indexHas_id s \<and> f = ''_id''
              then s\<lparr>hashed := (hashed s \<or> isHashed v),
                     shardKeyFields := shardKeyFields s @ [f],
                     indexHas_id := True, indexPos_id := c\<rparr>
              else s\<lparr>hashed := (hashed s \<or> isHashed v),
                     shardKeyFields := shardKeyFields s @ [f]\<rparr>"
  from Cons.prems have ok: "isHashed v \<or> v = NumberInt 1 \<or> v = NumberInt (- 1)"
    unfolding fv shardKeyLoop_Cons by (simp split: if_splits)
  with Cons.prems have r: "shardKeyLoop rest ?s4 (Suc c) = Inr (s', c')"
    unfolding fv shardKeyLoop_Cons by (simp only: if_True)
  have s4: "hashed ?s4 = (hashed s \<or> isHashed v)"
    "indexHas_id ?s4 = (indexHas_id s \<or> f = ''_id'')"
    "add_id ?s4 = add_id s" "threads ?s4 = threads s" "sharded ?s4 = sharded s"
    "shardKeysBson ?s4 = shardKeysBson s" "shardKeyJson ?s4 = shardKeyJson s"
    "shardKeyFields ?s4 = shardKeyFields s @ [f]"
    by auto
  from Cons.IH [OF r] ok show ?case
    unfolding fv s4 by auto
qed

lemma shardKeyLoop_ok:
  "(\<forall>(f, v) \<in> set key. isHashed v \<or> v = NumberInt 1 \<or> v = NumberInt (- 1))
     \<Longrightarrow> \<exists>s'. shardKeyLoop key s c = Inr (s', c + length key)"
proof (induction key arbitrary: s c)
  case Nil
  then show ?case by simp
next
  case (Cons fv rest)
  obtain f v where fv: "fv = (f, v)" by (cases fv)
  let ?s4 = "if \<not> indexHas_id s \<and> f = ''_id''
              then s\<lparr>hashed := (hashed s \<or> isHashed v),
                     shardKeyFields := shardKeyFields s @ [f],
                     indexHas_id := True, indexPos_id := c\<rparr>
              else s\<lparr>hashed := (hashed s \<or> isHashed v),
                     shardKeyFields := shardKeyFields s @ [f]\<rparr>"
  from Cons.prems have ok: "isHashed v \<or> v = NumberInt 1 \<or> v = NumberInt (- 1)"
    and rest: "\<forall>(f, v) \<in> set rest. isHashed v \<or> v = NumberInt 1 \<or> v = NumberInt (- 1)"
    unfolding fv by simp_all
  from Cons.IH [OF rest, of ?s4 "Suc c"]
  obtain s' where "shardKeyLoop rest ?s4 (Suc c) = Inr (s', Suc c + length rest)" ..
  then have "shardKeyLoop (fv # rest) s c = Inr (s', c + length (fv # rest))"
    unfolding fv shardKeyLoop_Cons using ok by (simp only: if_True) simp
  then show ?case ..
qed

lemma shardKeyLoop_first_bad:
  assumes "\<forall>(f, v) \<in> set pre. isHashed v \<or> v = NumberInt 1 \<or> v = NumberInt (- 1)"
    and "\<not> (isHashed v \<or> v = NumberInt 1 \<or> v = NumberInt (- 1))"
  shows "shardKeyLoop (pre @ (f, v) # post) s c =
           Inl (case Int_bson v of None \<Rightarrow> DriverException
                | Some i \<Rightarrow> ExitFailure (UnknownKeyValue f))"
  using assms(1)
proof (induction pre arbitrary: s c)
  case Nil
  show ?case using assms(2) by (simp only: append_Nil shardKeyLoop_Cons if_False)
next
  case (Cons gw pre)
  obtain g w where gw: "gw = (g, w)" by (cases gw)
  from Cons.prems have ok: "isHashed w \<or> w = NumberInt 1 \<or> w = NumberInt (- 1)"
    and rest: "\<forall>(f, v) \<in> set pre. isHashed v \<or> v = NumberInt 1 \<or> v = NumberInt (- 1)"
    unfolding gw by simp_all
  show ?case
    unfolding gw append_Cons shardKeyLoop_Cons [of g w]
    using ok Cons.IH [OF rest] by (simp only: if_True)
qed

lemma loadQueueLoop_fields:
  "loadQueueLoop e obj s = Inr s' \<Longrightarrow>
     add_id s' = add_id s \<and> threads s' = threads s \<and> sharded s' = sharded s
     \<and> shardKeysBson s' = shardKeysBson s \<and> indexHas_id s' = indexHas_id s
     \<and> hashed s' = hashed s"
proof (induction e obj s rule: loadQueueLoop.induct)
  case (1 e s)
  then show ?case by simp
next
  case (2 e fieldName load rest s)
  from "2.prems" obtain n where n: "verifyKey e fieldName" "isNumber load" "Int_bson load = Some n"
    by (auto split: if_splits option.splits bson_value.splits)
  let ?s1 = "s\<lparr>loadQueues := loadQueues s @ replicate (nat n) fieldName\<rparr>"
  from "2.prems" n have r: "loadQueueLoop e rest ?s1 = Inr s'" by simp
  from "2.IH" [OF _ _ n(3) r] n show ?case by simp
qed

lemma processLoadQueues_fields:
  "processLoadQueues e s = Inr s' \<Longrightarrow>
     add_id s' = add_id s \<and> threads s' = threads s \<and> sharded s' = sharded s
     \<and> shardKeysBson s' = shardKeysBson s \<and> indexHas_id s' = indexHas_id s
     \<and> hashed s' = hashed s"
  by (auto simp add: processLoadQueues_def Let_def split: sum.splits if_splits
      dest!: loadQueueLoop_fields)

lemma processThreads_fields:
  "processThreads e s = Inr s' \<Longrightarrow>
     add_id s' = add_id s \<and> sharded s' = sharded s
     \<and> shardKeysBson s' = shardKeysBson s \<and> indexHas_id s' = indexHas_id s
     \<and> hashed s' = hashed s"
  by (auto simp add: processThreads_def Let_def split: if_splits)

lemma processConnection_fields:
  "processConnection e s = Inr s' \<Longrightarrow>
     add_id s' = add_id s \<and> threads s' = threads s \<and> sharded s' = sharded s
     \<and> shardKeysBson s' = shardKeysBson s \<and> indexHas_id s' = indexHas_id s
     \<and> hashed s' = hashed s"
  by (auto simp add: processConnection_def Let_def split: if_splits prod.splits)

lemma processCopies_fields:
  "add_id (processCopies s) = (add_id s \<and> indexHas_id s)"
  "threads (processCopies s) = threads s" "sharded (processCopies s) = sharded s"
  "shardKeysBson (processCopies s) = shardKeysBson s"
  "indexHas_id (processCopies s) = indexHas_id s" "hashed (processCopies s) = hashed s"
  by (auto simp add: processCopies_def Let_def)

lemma processShardKey_Inr:
  "processShardKey e s = Inr s' \<Longrightarrow>
     threads s' = threads s \<and> add_id s' = add_id s \<and> sharded s' = sharded s
     \<and> indexHas_id s' = (sharded s \<and> ''_id'' \<in> fst ` set (fromjson e (shardKeyJson s)))
     \<and> (sharded s \<longrightarrow> shardKeysBson s' = fromjson e (shardKeyJson s))"
  by (auto simp add: processShardKey_def Let_def split: if_splits sum.splits
      dest!: shardKeyLoop_Inr)


text \<open>
  Claim C6, amended. For a sharded load with a shard key given, the part of \<open>process\<close>
  that reads the key succeeds exactly when every field of the key is \<open>hashed\<close> or has
  the direction 1 or -1 and, if some field is hashed (or the setting \<open>hashed\<close> was
  already on), the key has no second field. A key whose fields are all well formed but
  that has a hashed field and more than one field ends \<open>process\<close> with the message that
  only a single field can be hashed, and every failure of this part is the failure of
  \<open>process\<close>. The first field of the key that is neither \<open>hashed\<close> nor 1 nor -1 ends
  \<open>process\<close>: with the message about the unknown value of that field when its value is
  an integer, and with the exception of the driver when it is not.
\<close>

theorem shard_key_accepted_iff:
  assumes "sharded s" and "shardKeyJson s \<noteq> []"
  shows "((\<exists>s'. processShardKey e s = Inr s') =
            ((\<forall>(f, v) \<in> set (fromjson e (shardKeyJson s)).
                isHashed v \<or> v = NumberInt 1 \<or> v = NumberInt (- 1))
             \<and> \<not> ((hashed s \<or> (\<exists>(f, v) \<in> set (fromjson e (shardKeyJson s)). isHashed v))
                  \<and> 1 < length (fromjson e (shardKeyJson s)))))
       \<and> ((\<forall>(f, v) \<in> set (fromjson e (shardKeyJson s)).
                isHashed v \<or> v = NumberInt 1 \<or> v = NumberInt (- 1))
            \<and> (hashed s \<or> (\<exists>(f, v) \<in> set (fromjson e (shardKeyJson s)). isHashed v))
            \<and> 1 < length (fromjson e (shardKeyJson s))
            \<longrightarrow> process e s = Inl (ExitFailure SingleHashedFieldOnly))
       \<and> (\<forall>f. processShardKey e s = Inl f \<longrightarrow> process e s = Inl f)
       \<and> (\<forall>pre f v post.
             fromjson e (shardKeyJson s) = pre @ (f, v) # post
             \<and> (\<forall>(g, w) \<in> set pre. isHashed w \<or> w = NumberInt 1 \<or> w = NumberInt (- 1))
             \<and> \<not> (isHashed v \<or> v = NumberInt 1 \<or> v = NumberInt (- 1))
             \<longrightarrow> process e s =
                   Inl (case Int_bson v of None \<Rightarrow> DriverException
                        | Some i \<Rightarrow> ExitFailure (UnknownKeyValue f)))
       \<and> (\<forall>pre f i post.
             fromjson e (shardKeyJson s) = pre @ (f, NumberInt i) # post
             \<and> (\<forall>(g, w) \<in> set pre. isHashed w \<or> w = NumberInt 1 \<or> w = NumberInt (- 1))
             \<and> i \<noteq> 1 \<and> i \<noteq> - 1
             \<longrightarrow> process e s = Inl (ExitFailure (UnknownKeyValue f)))"
proof -
  let ?key = "fromjson e (shardKeyJson s)"
  let ?s1 = "s\<lparr>endPoint_startImmediate := False, indexHas_id := False,
               indexPos_id := 2 ^ 64 - 1, shardKeysBson := ?key\<rparr>"
  let ?ok = "\<forall>(f, v) \<in> set ?key. isHashed v \<or> v = NumberInt 1 \<or> v = NumberInt (- 1)"
  let ?h = "hashed s \<or> (\<exists>(f, v) \<in> set ?key. isHashed v)"
  have p: "processShardKey e s =
      (case shardKeyLoop ?key ?s1 0 of
         Inl f \<Rightarrow> Inl f
       | Inr (s2, count) \<Rightarrow>
           if hashed s2 \<and> count > 1 then Inl (ExitFailure SingleHashedFieldOnly) else Inr s2)"
    using assms by (simp add: processShardKey_def Let_def)
  have 3: "\<forall>f. processShardKey e s = Inl f \<longrightarrow> process e s = Inl f"
    by (simp add: process_def)
  have bad: "process e s = Inl (case Int_bson v of None \<Rightarrow> DriverException
                        | Some i \<Rightarrow> ExitFailure (UnknownKeyValue f))"
    if k: "?key = pre @ (f, v) # post"
      and pre: "\<forall>(g, w) \<in> set pre. isHashed w \<or> w = NumberInt 1 \<or> w = NumberInt (- 1)"
      and v: "\<not> (isHashed v \<or> v = NumberInt 1 \<or> v = NumberInt (- 1))"
    for pre f v post
  proof -
    have "shardKeyLoop ?key ?s1 0 = Inl (case Int_bson v of None \<Rightarrow> DriverException
                        | Some i \<Rightarrow> ExitFailure (UnknownKeyValue f))"
      unfolding k by (rule shardKeyLoop_first_bad [OF pre v])
    then have "processShardKey e s = Inl (case Int_bson v of None \<Rightarrow> DriverException
                        | Some i \<Rightarrow> ExitFailure (UnknownKeyValue f))"
      unfolding p by simp
    with 3 show ?thesis by blast
  qed
  have 4: "\<forall>pre f v post.
             ?key = pre @ (f, v) # post
             \<and> (\<forall>(g, w) \<in> set pre. isHashed w \<or> w = NumberInt 1 \<or> w = NumberInt (- 1))
             \<and> \<not> (isHashed v \<or> v = NumberInt 1 \<or> v = NumberInt (- 1))
             \<longrightarrow> process e s =
                   Inl (case Int_bson v of None \<Rightarrow> DriverException
                        | Some i \<Rightarrow> ExitFailure (UnknownKeyValue f))"
    using bad by blast
  have 5: "\<forall>pre f i post.
             ?key = pre @ (f, NumberInt i) # post
             \<and> (\<forall>(g, w) \<in> set pre. isHashed w \<or> w = NumberInt 1 \<or> w = NumberInt (- 1))
             \<and> i \<noteq> 1 \<and> i \<noteq> - 1
             \<longrightarrow> process e s = Inl (ExitFailure (UnknownKeyValue f))"
  proof (intro allI impI)
    fix pre f i post
    assume a: "?key = pre @ (f, NumberInt i) # post
             \<and> (\<forall>(g, w) \<in> set pre. isHashed w \<or> w = NumberInt 1 \<or> w = NumberInt (- 1))
             \<and> i \<noteq> 1 \<and> i \<noteq> - 1"
    then have "\<not> (isHashed (NumberInt i) \<or> NumberInt i = NumberInt 1
                  \<or> NumberInt i = NumberInt (- 1))"
      by simp
    from bad [of pre f "NumberInt i" post, OF _ _ this] a
    show "process e s = Inl (ExitFailure (UnknownKeyValue f))" by simp
  qed
  have 12: "((\<exists>s'. processShardKey e s = Inr s') = (?ok \<and> \<not> (?h \<and> 1 < length ?key)))
      \<and> (?ok \<and> ?h \<and> 1 < length ?key
               \<longrightarrow> process e s = Inl (ExitFailure SingleHashedFieldOnly))"
  proof (cases ?ok)
    case True
    from shardKeyLoop_ok [OF True, of ?s1 0]
    obtain s2 where l: "shardKeyLoop ?key ?s1 0 = Inr (s2, length ?key)" by auto
    from shardKeyLoop_Inr [OF l] have h: "hashed s2 = ?h" by simp
    have q: "processShardKey e s =
        (if ?h \<and> 1 < length ?key then Inl (ExitFailure SingleHashedFieldOnly) else Inr s2)"
      unfolding p l using h by simp
    have 1: "(\<exists>s'. processShardKey e s = Inr s') = (?ok \<and> \<not> (?h \<and> 1 < length ?key))"
      unfolding q using True by auto
    have 2: "?ok \<and> ?h \<and> 1 < length ?key
               \<longrightarrow> process e s = Inl (ExitFailure SingleHashedFieldOnly)"
      unfolding process_def q by simp
    from 1 2 show ?thesis by blast
  next
    case False
    have "\<not> (\<exists>s2 c. shardKeyLoop ?key ?s1 0 = Inr (s2, c))"
      using shardKeyLoop_Inr [of ?key ?s1 0] False by blast
    then have "\<not> (\<exists>s'. processShardKey e s = Inr s')"
      unfolding p by (auto split: sum.splits prod.splits if_splits)
    with False show ?thesis by blast
  qed
  from 12 3 4 5 show ?thesis by (intro conjI) blast+
qed

lemma to_int32_id: "- (2 ^ 31) \<le> x \<Longrightarrow> x < 2 ^ 31 \<Longrightarrow> to_int32 x = x"
  by (simp add: to_int32_def)

lemma processThreads_resolved:
  assumes hw: "hardware_concurrency e < 2 ^ 30"
    and lo: "- (2 ^ 31) \<le> threads s" and hi: "threads s < 2 ^ 31"
  shows "processThreads e s =
     (if threads s < 0 \<and> int (hardware_concurrency e) - \<bar>threads s\<bar> < 1
      then Inl (ExitFailure (ThreadsLessThanOne (hardware_concurrency e) (threads s)))
      else Inr (s\<lparr>threads :=
                  (if threads s = 0 then 2 * int (hardware_concurrency e)
                   else if threads s < 0 then int (hardware_concurrency e) - \<bar>threads s\<bar>
                   else threads s)\<rparr>))"
proof -
  from hw have h: "int (hardware_concurrency e) < 2 ^ 30" "0 \<le> int (hardware_concurrency e)"
    by simp_all
  have a: "to_int32 (int (hardware_concurrency e) * 2) = 2 * int (hardware_concurrency e)"
    using h by (subst to_int32_id) simp_all
  have b: "threads s < 0 \<Longrightarrow> to_int32 (int (hardware_concurrency e) + threads s)
              = int (hardware_concurrency e) - \<bar>threads s\<bar>"
    using h lo by (subst to_int32_id) simp_all
  show ?thesis
  proof (cases "threads s = 0")
    case True
    then show ?thesis by (simp add: processThreads_def a)
  next
    case False
    show ?thesis
    proof (cases "threads s < 0")
      case True
      then show ?thesis using False by (simp add: processThreads_def Let_def b)
    next
      case pos: False
      then show ?thesis using False by (simp add: processThreads_def)
    qed
  qed
qed

text \<open>
  Claim C9. With fewer than \<open>2 ^ 30\<close> hardware threads (so that the \<open>unsigned\<close>
  arithmetic converts to \<open>int\<close> without wrapping) and a configured value in the range
  of \<open>int\<close>: once the shard key and the load queues have been processed, \<open>process\<close>
  exits with the single message about the thread count exactly when the configured value
  is negative and the hardware concurrency minus its absolute value is below 1;
  otherwise it continues with the thread count set to twice the hardware concurrency
  for 0, to the hardware concurrency minus the absolute value for a negative value, and
  left unchanged for a positive value. Whenever \<open>process\<close> returns, that is the thread
  count of the settings it returns.
\<close>

theorem thread_count_resolved:
  assumes hw: "hardware_concurrency e < 2 ^ 30"
    and lo: "- (2 ^ 31) \<le> threads s" and hi: "threads s < 2 ^ 31"
  shows "(\<forall>s1 s2. processShardKey e s = Inr s1
              \<and> processLoadQueues e (processCopies s1) = Inr s2 \<longrightarrow>
            process e s =
              (if threads s < 0 \<and> int (hardware_concurrency e) - \<bar>threads s\<bar> < 1
               then Inl (ExitFailure (ThreadsLessThanOne (hardware_concurrency e) (threads s)))
               else processConnection e
                 (s2\<lparr>threads :=
                    (if threads s = 0 then 2 * int (hardware_concurrency e)
                     else if threads s < 0 then int (hardware_concurrency e) - \<bar>threads s\<bar>
                     else threads s)\<rparr>)))
       \<and> (\<forall>s'. process e s = Inr s' \<longrightarrow>
            threads s' =
              (if threads s = 0 then 2 * int (hardware_concurrency e)
               else if threads s < 0 then int (hardware_concurrency e) - \<bar>threads s\<bar>
               else threads s)
            \<and> (threads s < 0 \<longrightarrow> 1 \<le> threads s'))"
proof -
  let ?r = "if threads s = 0 then 2 * int (hardware_concurrency e)
            else if threads s < 0 then int (hardware_concurrency e) - \<bar>threads s\<bar>
            else threads s"
  have stage: "process e s =
         (if threads s < 0 \<and> int (hardware_concurrency e) - \<bar>threads s\<bar> < 1
          then Inl (ExitFailure (ThreadsLessThanOne (hardware_concurrency e) (threads s)))
          else processConnection e (s2\<lparr>threads := ?r\<rparr>))"
    if s1: "processShardKey e s = Inr s1"
      and s2: "processLoadQueues e (processCopies s1) = Inr s2" for s1 s2
  proof -
    from processShardKey_Inr [OF s1] processLoadQueues_fields [OF s2]
    have t: "threads s2 = threads s" by (simp add: processCopies_fields)
    from lo hi have r: "- (2 ^ 31) \<le> threads s2" "threads s2 < 2 ^ 31" by (simp_all add: t)
    have p: "process e s = (case processThreads e s2 of Inl f \<Rightarrow> Inl f
                          | Inr s3 \<Rightarrow> processConnection e s3)"
      by (simp add: process_def s1 s2)
    have pt: "processThreads e s2 =
         (if threads s < 0 \<and> int (hardware_concurrency e) - \<bar>threads s\<bar> < 1
          then Inl (ExitFailure (ThreadsLessThanOne (hardware_concurrency e) (threads s)))
          else Inr (s2\<lparr>threads := ?r\<rparr>))"
      using processThreads_resolved [OF hw r] unfolding t .
    show ?thesis
    proof (cases "threads s < 0 \<and> int (hardware_concurrency e) - \<bar>threads s\<bar> < 1")
      case True
      then show ?thesis unfolding p pt by (simp only: simp_thms if_True sum.case)
    next
      case False
      then show ?thesis unfolding p pt by (simp only: simp_thms if_False sum.case)
    qed
  qed
  have final: "threads s' = ?r \<and> (threads s < 0 \<longrightarrow> 1 \<le> threads s')"
    if ok: "process e s = Inr s'" for s'
  proof -
    from ok obtain s1 where s1: "processShardKey e s = Inr s1"
      by (auto simp add: process_def split: sum.splits)
    with ok obtain s2 where s2: "processLoadQueues e (processCopies s1) = Inr s2"
      by (auto simp add: process_def split: sum.splits)
    from stage [OF s1 s2] ok
    have c: "\<not> (threads s < 0 \<and> int (hardware_concurrency e) - \<bar>threads s\<bar> < 1)"
      and d: "processConnection e (s2\<lparr>threads := ?r\<rparr>) = Inr s'"
      by (auto split: if_splits)
    from processConnection_fields [OF d] have "threads s' = ?r" by simp
    with c show ?thesis by auto
  qed
  from stage final show ?thesis by blast
qed

text \<open>
  Claim C10. When \<open>process\<close> returns, \<open>add_id\<close> is on only if the load is sharded and
  the shard key it parsed has the field \<open>_id\<close>: \<open>add_id\<close> is its earlier value
  restricted by \<open>indexHas_id\<close>, which is on exactly for a sharded load whose key has
  that field; \<open>process\<close> never turns \<open>add_id\<close> on.
\<close>

theorem add_id_needs_id_in_key:
  assumes "process e s = Inr s'"
  shows "(add_id s' \<longrightarrow> sharded s \<and> ''_id'' \<in> fst ` set (shardKeysBson s')
                        \<and> shardKeysBson s' = fromjson e (shardKeyJson s))
       \<and> add_id s' = (add_id s \<and> indexHas_id s')
       \<and> indexHas_id s' = (sharded s \<and> ''_id'' \<in> fst ` set (fromjson e (shardKeyJson s)))"
proof -
  from assms obtain s1 where s1: "processShardKey e s = Inr s1"
    by (auto simp add: process_def split: sum.splits)
  with assms obtain s2 where s2: "processLoadQueues e (processCopies s1) = Inr s2"
    by (auto simp add: process_def split: sum.splits)
  with assms s1 obtain s3 where s3: "processThreads e s2 = Inr s3"
    and s4: "processConnection e s3 = Inr s'"
    by (auto simp add: process_def split: sum.splits)
  note a = processShardKey_Inr [OF s1] processLoadQueues_fields [OF s2]
    processThreads_fields [OF s3] processConnection_fields [OF s4]
  have i: "indexHas_id s' = (sharded s \<and> ''_id'' \<in> fst ` set (fromjson e (shardKeyJson s)))"
    using a by (simp add: processCopies_fields)
  have b: "add_id s' = (add_id s \<and> indexHas_id s')"
    using a by (simp add: processCopies_fields)
  have k: "sharded s \<longrightarrow> shardKeysBson s' = fromjson e (shardKeyJson s)"
    using a by (simp add: processCopies_fields)
  from i b k show ?thesis by auto
qed

text \<open>
  Claim C1, amended. A failure of \<open>enableSharding\<close> does not end \<open>setupLoad\<close>: the
  function ends as it does when \<open>enableSharding\<close> succeeds, after the same calls to the
  cluster, and its error output differs only by the line that sharding the database
  failed, written first when \<open>enableSharding\<close> was reached and the field \<open>ok\<close> of its
  answer is not 0. What stops the program in \<open>setupLoad\<close> is exactly this, in the order
  of the checks: a sharded load on a cluster without shard metadata (exit), a cluster
  that is not sharded (the logic error), a connection error (exit), a balancer that does
  not stop (exit), and for a sharded load no chunk per shard (the assertion) or a failure
  of \<open>shardCollection\<close> (exit); in every other case the function returns. Each exit
  writes its one message, after the line about \<open>enableSharding\<close> when there is one.
\<close>

theorem enableSharding_failure_continues:
  "setupLoad (c\<lparr>enableSharding := (False, ok)\<rparr>) s =
     (case setupLoad (c\<lparr>enableSharding := (True, ok)\<rparr>) s of
        (ending, msgs, acts) \<Rightarrow>
          (ending,
           (if EnableSharding \<in> set acts \<and> ok \<noteq> 0 then [ShardingDbFailed] else []) @ msgs,
           acts))
   \<and> fst (setupLoad c s) =
       (if sharded s \<and> \<not> isSharded c then Exits
        else if \<not> isSharded c then ThrowsLogicError
        else if connect c \<noteq> [] then Exits
        else if stopBalancer s \<and> stopBalancerWait c then Exits
        else if \<not> sharded s then Returns
        else if chunksPerShard s = 0 then AssertFails
        else if \<not> shardCollection c
                   (if hashed s
                    then Some (to_int32 (int (chunksPerShard s * shards_size c)))
                    else None)
        then Exits
        else Returns)
   \<and> fst (snd (setupLoad c s)) =
       (if sharded s \<and> \<not> isSharded c then [NoClusterMetadata]
        else if \<not> isSharded c then []
        else if connect c \<noteq> [] then [UnableToConnect (connect c)]
        else if stopBalancer s \<and> stopBalancerWait c then [UnableToStopBalancer]
        else if \<not> sharded s then []
        else (if \<not> fst (enableSharding c) \<and> snd (enableSharding c) \<noteq> 0
              then [ShardingDbFailed] else [])
           @ (if chunksPerShard s \<noteq> 0
                \<and> \<not> shardCollection c
                   (if hashed s
                    then Some (to_int32 (int (chunksPerShard s * shards_size c)))
                    else None)
              then [ShardingCollectionFailed] else []))"
proof -
  have 1: "setupLoad (c\<lparr>enableSharding := (False, ok)\<rparr>) s =
     (case setupLoad (c\<lparr>enableSharding := (True, ok)\<rparr>) s of
        (ending, msgs, acts) \<Rightarrow>
          (ending,
           (if EnableSharding \<in> set acts \<and> ok \<noteq> 0 then [ShardingDbFailed] else []) @ msgs,
           acts))"
    by (simp add: setupLoad_def setupSharding_def Let_def)
  have 2: "fst (setupLoad c s) =
       (if sharded s \<and> \<not> isSharded c then Exits
        else if \<not> isSharded c then ThrowsLogicError
        else if connect c \<noteq> [] then Exits
        else if stopBalancer s \<and> stopBalancerWait c then Exits
        else if \<not> sharded s then Returns
        else if chunksPerShard s = 0 then AssertFails
        else if \<not> shardCollection c
                   (if hashed s
                    then Some (to_int32 (int (chunksPerShard s * shards_size c)))
                    else None)
        then Exits
        else Returns)"
    by (simp add: setupLoad_def setupSharding_def Let_def)
  have 3: "fst (snd (setupLoad c s)) =
       (if sharded s \<and> \<not> isSharded c then [NoClusterMetadata]
        else if \<not> isSharded c then []
        else if connect c \<noteq> [] then [UnableToConnect (connect c)]
        else if stopBalancer s \<and> stopBalancerWait c then [UnableToStopBalancer]
        else if \<not> sharded s then []
        else (if \<not> fst (enableSharding c) \<and> snd (enableSharding c) \<noteq> 0
              then [ShardingDbFailed] else [])
           @ (if chunksPerShard s \<noteq> 0
                \<and> \<not> shardCollection c
                   (if hashed s
                    then Some (to_int32 (int (chunksPerShard s * shards_size c)))
                    else None)
              then [ShardingCollectionFailed] else []))"
    by (simp add: setupLoad_def setupSharding_def Let_def)
  from 1 2 3 show ?thesis by (intro conjI)
qed

text \<open>
  Claim C6 says that a key with at most one hashed field, all other fields being 1 or -1,
  is accepted. The key with the hashed field \<open>a\<close> and the ascending field \<open>b\<close> is such a
  key, and \<open>process\<close> exits on it.
\<close>

theorem hashed_compound_key_counterexample:
  "fromjson example_env ''{a: hashed, b: 1}'' = [(''a'', String ''hashed''), (''b'', NumberInt 1)]
   \<and> process example_env (example_settings\<lparr>shardKeyJson := ''{a: hashed, b: 1}''\<rparr>)
       = Inl (ExitFailure SingleHashedFieldOnly)"
  by (simp add: process_defs)

theorem shard_key_accepted_iff_witness:
  "sharded (example_settings\<lparr>shardKeyJson := ''{a: hashed}''\<rparr>)
   \<and> shardKeyJson (example_settings\<lparr>shardKeyJson := ''{a: hashed}''\<rparr>) \<noteq> []
   \<and> (\<exists>s'. processShardKey example_env (example_settings\<lparr>shardKeyJson := ''{a: hashed}''\<rparr>)
             = Inr s')
   \<and> process example_env (example_settings\<lparr>shardKeyJson := ''{a: hashed, b: 1}''\<rparr>)
       = Inl (ExitFailure SingleHashedFieldOnly)
   \<and> process example_env (example_settings\<lparr>shardKeyJson := ''{a: 2}''\<rparr>)
       = Inl (ExitFailure (UnknownKeyValue ''a''))"
proof -
  let ?X = "example_settings\<lparr>shardKeyJson := ''{a: hashed}''\<rparr>"
  let ?Y = "example_settings\<lparr>shardKeyJson := ''{a: hashed, b: 1}''\<rparr>"
  let ?Z = "example_settings\<lparr>shardKeyJson := ''{a: 2}''\<rparr>"
  have x: "sharded ?X" "shardKeyJson ?X \<noteq> []" by (simp_all add: example_settings_def)
  have y: "sharded ?Y" "shardKeyJson ?Y \<noteq> []" by (simp_all add: example_settings_def)
  have z: "sharded ?Z" "shardKeyJson ?Z \<noteq> []" by (simp_all add: example_settings_def)
  have kx: "fromjson example_env (shardKeyJson ?X) = [(''a'', String ''hashed'')]"
    "\<not> hashed ?X"
    by (simp_all add: example_env_def example_settings_def)
  have ky: "fromjson example_env (shardKeyJson ?Y)
              = [(''a'', String ''hashed''), (''b'', NumberInt 1)]"
    by (simp add: example_env_def example_settings_def)
  from shard_key_accepted_iff [OF x, of example_env]
  have 1: "\<exists>s'. processShardKey example_env ?X = Inr s'"
    unfolding kx by simp
  from shard_key_accepted_iff [OF y, of example_env]
  have 2: "process example_env ?Y = Inl (ExitFailure SingleHashedFieldOnly)"
    unfolding ky by simp
  from shard_key_accepted_iff [OF z, of example_env]
  have "\<forall>pre f i post.
             fromjson example_env (shardKeyJson ?Z) = pre @ (f, NumberInt i) # post
             \<and> (\<forall>(g, w) \<in> set pre. isHashed w \<or> w = NumberInt 1 \<or> w = NumberInt (- 1))
             \<and> i \<noteq> 1 \<and> i \<noteq> - 1
             \<longrightarrow> process example_env ?Z = Inl (ExitFailure (UnknownKeyValue f))"
    by blast
  note r = this [rule_format, where pre = "[]" and f = "''a''" and i = 2 and post = "[]"]
  have 3: "process example_env ?Z = Inl (ExitFailure (UnknownKeyValue ''a''))"
    by (rule r) (simp add: example_env_def example_settings_def)
  from x 1 2 3 show ?thesis by (intro conjI)
qed

theorem thread_count_resolved_witness:
  "hardware_concurrency example_env < 2 ^ 30
   \<and> process example_env (example_settings\<lparr>threads := - 4\<rparr>)
       = Inl (ExitFailure (ThreadsLessThanOne 4 (- 4)))
   \<and> map_sum id threads (process example_env (example_settings\<lparr>threads := - 3\<rparr>)) = Inr 1
   \<and> map_sum id threads (process example_env (example_settings\<lparr>threads := 0\<rparr>)) = Inr 8
   \<and> map_sum id threads (process example_env (example_settings\<lparr>threads := 5\<rparr>)) = Inr 5"
proof -
  have hw: "hardware_concurrency example_env < 2 ^ 30" by (simp add: example_env_def)
  have r: "- (2 ^ 31) \<le> threads (example_settings\<lparr>threads := t\<rparr>)
           \<and> threads (example_settings\<lparr>threads := t\<rparr>) < 2 ^ 31"
    if "t \<in> {- 4, - 3, 0, 5}" for t
    using that by auto
  have ok: "\<exists>s'. process example_env (example_settings\<lparr>threads := t\<rparr>) = Inr s'"
    if "t \<in> {- 3, 0, 5}" for t
    using that by (auto simp add: process_defs)
  have res: "map_sum id threads (process example_env (example_settings\<lparr>threads := t\<rparr>))
         = Inr (if t = 0 then 8 else if t < 0 then 4 - \<bar>t\<bar> else t)"
    if t: "t \<in> {- 3, 0, 5}" for t
  proof -
    from ok [OF t] obtain s' where
      p: "process example_env (example_settings\<lparr>threads := t\<rparr>) = Inr s'" ..
    have "t \<in> {- 4, - 3, 0, 5}" using t by auto
    from r [OF this] have lo: "- (2 ^ 31) \<le> threads (example_settings\<lparr>threads := t\<rparr>)"
      and hi: "threads (example_settings\<lparr>threads := t\<rparr>) < 2 ^ 31" by simp_all
    from thread_count_resolved [OF hw lo hi] p
    have "threads s' = (if t = 0 then 8 else if t < 0 then 4 - \<bar>t\<bar> else t)"
      by (simp add: example_env_def)
    with p show ?thesis by simp
  qed
  have s1: "processShardKey example_env (example_settings\<lparr>threads := - 4\<rparr>)
         = Inr (example_settings\<lparr>threads := - 4, endPoint_startImmediate := False,
                 indexHas_id := True, indexPos_id := 0,
                 shardKeysBson := [(''_id'', NumberInt 1)], shardKeyFields := [''_id'']\<rparr>)"
    by (simp add: process_defs)
  have "\<exists>s2. processLoadQueues example_env (processCopies
           (example_settings\<lparr>threads := - 4, endPoint_startImmediate := False,
                 indexHas_id := True, indexPos_id := 0,
                 shardKeysBson := [(''_id'', NumberInt 1)], shardKeyFields := [''_id'']\<rparr>))
           = Inr s2"
    by (simp add: process_defs)
  then obtain s2 where s2: "processLoadQueues example_env (processCopies
           (example_settings\<lparr>threads := - 4, endPoint_startImmediate := False,
                 indexHas_id := True, indexPos_id := 0,
                 shardKeysBson := [(''_id'', NumberInt 1)], shardKeyFields := [''_id'']\<rparr>))
           = Inr s2" ..
  have "- 4 \<in> {- 4, - 3, 0, 5 :: int}" by simp
  from r [OF this] have lo: "- (2 ^ 31) \<le> threads (example_settings\<lparr>threads := - 4\<rparr>)"
      and hi: "threads (example_settings\<lparr>threads := - 4\<rparr>) < 2 ^ 31" by simp_all
  from thread_count_resolved [OF hw lo hi] s1 s2
  have 4: "process example_env (example_settings\<lparr>threads := - 4\<rparr>)
       = Inl (ExitFailure (ThreadsLessThanOne 4 (- 4)))"
    by (simp add: example_env_def)
  from hw 4 res [of "- 3"] res [of 0] res [of 5] show ?thesis by simp
qed

theorem add_id_needs_id_in_key_witness:
  "map_sum id add_id (process example_env example_settings) = Inr True
   \<and> map_sum id add_id (process example_env (example_settings\<lparr>shardKeyJson := ''{a: hashed}''\<rparr>))
       = Inr False"
proof -
  let ?X = "example_settings\<lparr>shardKeyJson := ''{a: hashed}''\<rparr>"
  have "\<exists>s'. process example_env example_settings = Inr s'"
    by (simp add: process_defs)
  then obtain s' where p: "process example_env example_settings = Inr s'" ..
  from add_id_needs_id_in_key [OF p] have "add_id s'"
    by (simp add: example_env_def example_settings_def)
  with p have 1: "map_sum id add_id (process example_env example_settings) = Inr True"
    by simp
  have "\<exists>s'. process example_env ?X = Inr s'"
    by (simp add: process_defs)
  then obtain t' where q: "process example_env ?X = Inr t'" ..
  from add_id_needs_id_in_key [OF q] have "\<not> add_id t'"
    by (simp add: example_env_def example_settings_def)
  with q have 2: "map_sum id add_id (process example_env ?X) = Inr False"
    by simp
  from 1 2 show ?thesis by blast
qed

text \<open>
  Claim C1 says that a failure of \<open>enableSharding\<close> is reported and aborts the program.
  On a cluster where every other call succeeds, \<open>setupLoad\<close> returns after sharding the
  collection: without any message when the field \<open>ok\<close> is 0, and after the message
  when it is 1.
\<close>

theorem enableSharding_failure_counterexample:
  "fst (enableSharding (example_cluster 0)) = False
   \<and> setupLoad (example_cluster 0) (example_settings\<lparr>chunksPerShard := 2\<rparr>)
       = (Returns, [], [EnableSharding, ShardCollection None])
   \<and> setupLoad (example_cluster 1) (example_settings\<lparr>chunksPerShard := 2\<rparr>)
       = (Returns, [ShardingDbFailed], [EnableSharding, ShardCollection None])"
  by (simp add: setup_defs example_settings_def)

theorem enableSharding_failure_continues_witness:
  "setupLoad ((example_cluster 0)\<lparr>enableSharding := (False, 1)\<rparr>)
       (example_settings\<lparr>chunksPerShard := 2, hashed := True\<rparr>)
     = (Returns, [ShardingDbFailed],
        [EnableSharding, ShardCollection (Some 4), WaitForChunksPerShard 2])
   \<and> fst (setupLoad ((example_cluster 0)\<lparr>enableSharding := (True, 1),
                                           shardCollection := (\<lambda>_. False)\<rparr>)
       (example_settings\<lparr>chunksPerShard := 2, hashed := True\<rparr>)) = Exits
   \<and> fst (snd (setupLoad ((example_cluster 0)\<lparr>enableSharding := (True, 1),
                                           shardCollection := (\<lambda>_. False)\<rparr>)
       (example_settings\<lparr>chunksPerShard := 2, hashed := True\<rparr>)))
       = [ShardingCollectionFailed]"
proof -
  let ?s = "example_settings\<lparr>chunksPerShard := 2, hashed := True\<rparr>"
  let ?c = "(example_cluster 0)\<lparr>enableSharding := (True, 1), shardCollection := (\<lambda>_. False)\<rparr>"
  have t: "setupLoad ((example_cluster 0)\<lparr>enableSharding := (True, 1)\<rparr>) ?s
     = (Returns, [], [EnableSharding, ShardCollection (Some 4), WaitForChunksPerShard 2])"
    by (simp add: setup_defs example_settings_def)
  from enableSharding_failure_continues [where c = "example_cluster 0" and ok = 1 and s = ?s]
  have 1: "setupLoad ((example_cluster 0)\<lparr>enableSharding := (False, 1)\<rparr>) ?s
     = (Returns, [ShardingDbFailed],
        [EnableSharding, ShardCollection (Some 4), WaitForChunksPerShard 2])"
    unfolding t by simp
  from enableSharding_failure_continues [where c = ?c and ok = 1 and s = ?s]
  have 2: "fst (setupLoad ?c ?s) = Exits"
    and 3: "fst (snd (setupLoad ?c ?s)) = [ShardingCollectionFailed]"
    by (simp_all add: example_cluster_def example_settings_def)
  from 1 2 3 show ?thesis by (intro conjI)
qed

end
